theory Spec2Isabelle
  imports Complex_Main "HOL-Library.Log_Nat"
begin

section \<open>Guitar-Hero-FRP: the game core of \<^verbatim>\<open>src/main.ts\<close>\<close>

text \<open>
  The embedding follows \<^verbatim>\<open>main.ts\<close> function by function. The engine is embedded twice.

  \<^item> The exact engine: a \<^verbatim>\<open>number\<close> is a rational and every operator is exact. It
    carries the properties that depend on no rounding: the pause, the frame of a lane key,
    the game end and the invariant of one token per note.
  \<^item> The engine on doubles: a \<^verbatim>\<open>number\<close> is an IEEE 754 binary64 value and every
    operator rounds as the platform does. It carries the properties whose wording depends
    on a comparison at the edge of a window or on the value of an arithmetic result: the
    tick, the hit detection, the score and the random number generator.
  \<^item> In the score parser \<^verbatim>\<open>NaN\<close> is modelled where it is produced (type \<open>jsnum\<close>).
  \<^item> Objects are immutable (\<^verbatim>\<open>Readonly\<close>, only ever rebuilt with a spread), so an object is
    modelled as its address together with its fields: \<open>nid\<close> is the address of a
    \<^verbatim>\<open>NoteData\<close> object, \<open>bid\<close> the address of a \<^verbatim>\<open>Body\<close> object. \<^verbatim>\<open>===\<close> on objects
    compares addresses. Every object literal of the source takes a fresh address from the
    allocation pointer \<open>heapTop\<close>, which the model state carries beside the fields of the
    source's \<^verbatim>\<open>State\<close>. Only the freshness of an address matters, never its value.
  \<^item> Field names that are Isabelle keywords carry a prime: \<open>end'\<close>, \<open>notes'\<close>, \<open>note'\<close>, \<open>class'\<close>.
\<close>

subsection \<open>Constants\<close>

text \<open>The constants of the exact engine.\<close>

definition Viewport_CANVAS_WIDTH :: rat where "Viewport_CANVAS_WIDTH = 200"
definition Viewport_LAST_POSITION :: rat where "Viewport_LAST_POSITION = 350"
definition Constants_TICK_RATE_MS :: rat where "Constants_TICK_RATE_MS = 10"
definition Note_RADIUS :: rat where "Note_RADIUS = 7 / 100 * Viewport_CANVAS_WIDTH"
definition Time_OFFSET :: rat where "Time_OFFSET = 7 / 2"
definition Time_FORGIVING_MARGIN :: rat where "Time_FORGIVING_MARGIN = 3 / 10"

subsection \<open>Types\<close>

type_synonym addr = nat

record ('s, 'n) NoteData =
  nid :: addr
  user_played :: bool
  instrument :: 's
  velocity :: 'n
  pitch :: 'n
  start :: 'n
  end' :: 'n
  played_at :: "'n option"

text \<open>The notes of the exact engine: every field holds a value of its declared type.\<close>

type_synonym Note = "(string, rat) NoteData"

text \<open>
  \<^verbatim>\<open>Body\<close> and \<^verbatim>\<open>State\<close>, over the type \<open>'n\<close> that stands for \<^verbatim>\<open>number\<close>; \<open>Body\<close> and
  \<open>State\<close> are those of the exact engine.
\<close>

record 'n Body_of =
  bid :: addr
  r :: 'n
  cx :: string
  cy :: 'n
  style :: string
  class' :: string
  rendered :: bool
  note' :: "(string, 'n) NoteData"
  played :: bool

record 'n State_of =
  gameEnd :: bool
  circles :: "'n Body_of list"
  notes' :: "(string, 'n) NoteData list"
  autoNotes :: "(string, 'n) NoteData list"
  userNotes :: "(string, 'n) NoteData list"
  noteIndex :: 'n
  time :: 'n
  lastNote :: "(string, 'n) NoteData"
  score :: 'n
  paused :: bool
  heapTop :: addr

type_synonym Body = "rat Body_of"
type_synonym State = "rat State_of"

subsection \<open>Arithmetic of the platform\<close>

text \<open>\<^verbatim>\<open>Math.round\<close> rounds to the nearest integer, a half towards plus infinity.\<close>

definition Math_round :: "rat \<Rightarrow> rat" where
  "Math_round x = of_int \<lfloor>x + 1 / 2\<rfloor>"

text \<open>\<^verbatim>\<open>x % m\<close>: the remainder of the division truncated towards zero; it has the sign of \<open>x\<close>.\<close>

definition js_rem :: "rat \<Rightarrow> rat \<Rightarrow> rat" where
  "js_rem x m = x - m * of_int (if x / m < 0 then \<lceil>x / m\<rceil> else \<lfloor>x / m\<rfloor>)"

subsection \<open>The exact engine: \<^verbatim>\<open>tick\<close>\<close>

definition circleX :: "rat \<Rightarrow> string list" where
  "circleX p =
     (let c = js_rem p 4 in
      if c = 0 then [''20%'', ''fill: green'']
      else if c = 1 then [''40%'', ''fill: red'']
      else if c = 2 then [''60%'', ''fill: blue'']
      else if c = 3 then [''80%'', ''fill: yellow'']
      else [''20%'', ''fill: green''])"

definition roundedTime :: "State \<Rightarrow> rat" where
  "roundedTime s = Math_round ((time s + Constants_TICK_RATE_MS / 1000) * 1000) / 1000"

text \<open>
  The three \<^verbatim>\<open>map\<close> calls of \<^verbatim>\<open>tick\<close> build new objects. The callback of the first takes
  its addresses from \<open>heapTop\<close> on, the second from \<open>heapTop + length autoNotes\<close> on, the
  third from \<open>heapTop + length autoNotes + length userNotes\<close> on, the element at index
  \<open>i\<close> of a mapped array the \<open>i\<close>-th address of its range, so that no two new objects
  share an address and all lie below the new \<open>heapTop\<close>.

  \<open>updatedNotes\<close>: the \<^verbatim>\<open>filter\<close> keeps the notes still sounding, the \<^verbatim>\<open>map\<close> returns a
  new object (at address \<open>a\<close>) for a note that starts in this tick and the note itself
  otherwise.
\<close>

definition updatedNotes :: "State \<Rightarrow> Note list" where
  "updatedNotes s =
     map (\<lambda>(a, n).
            if played_at n = None \<and> start n < roundedTime s \<and> start n \<ge> time s
            then n\<lparr>played_at := Some (time s), nid := a\<rparr>
            else n)
         (enumerate (heapTop s) (filter (\<lambda>n. end' n > time s) (autoNotes s)))"

definition newNotes :: "State \<Rightarrow> Note list" where
  "newNotes s =
     filter (\<lambda>n. start n < roundedTime s + Time_OFFSET \<and> start n \<ge> time s + Time_OFFSET)
            (userNotes s)"

definition newCircles :: "State \<Rightarrow> Body list" where
  "newCircles s =
     map (\<lambda>(a, n).
            \<lparr>bid = a, r = Note_RADIUS, cx = circleX (pitch n) ! 0, cy = 0,
             style = circleX (pitch n) ! 1, class' = ''shadow'', rendered = True,
             note' = n, played = False\<rparr>)
         (enumerate (heapTop s + length (autoNotes s)) (newNotes s))"

text \<open>
  \<open>updatedCircles\<close> is one chain in the source; \<open>oldCircles\<close> names its part before the
  \<^verbatim>\<open>concat\<close>, the tokens that were there before.
\<close>

definition oldCircles :: "State \<Rightarrow> Body list" where
  "oldCircles s =
     map (\<lambda>(a, circle).
            if cy circle \<ge> Viewport_LAST_POSITION
            then circle\<lparr>cy := cy circle, rendered := False, bid := a\<rparr>
            else circle\<lparr>cy := cy circle + 1, bid := a\<rparr>)
         (enumerate (heapTop s + length (autoNotes s) + length (userNotes s))
                    (filter rendered (circles s)))"

definition updatedCircles :: "State \<Rightarrow> Body list" where
  "updatedCircles s = oldCircles s @ newCircles s"

definition didGameEnd :: "State \<Rightarrow> bool" where
  "didGameEnd s = (if end' (lastNote s) \<ge> 0 \<and> time s > end' (lastNote s) then True else False)"

definition tick :: "State \<Rightarrow> State" where
  "tick s =
     s\<lparr>gameEnd := didGameEnd s,
       circles := updatedCircles s,
       notes' := updatedNotes s,
       noteIndex := noteIndex s,
       time := roundedTime s,
       autoNotes := updatedNotes s,
       userNotes := userNotes s,
       heapTop := heapTop s + length (autoNotes s) + length (userNotes s) + length (circles s)\<rparr>"

subsection \<open>The reducer of \<^verbatim>\<open>state$\<close>\<close>

definition keyToColumn :: "string \<Rightarrow> string option" where
  "keyToColumn =
     [''H'' \<mapsto> ''20%'', ''J'' \<mapsto> ''40%'', ''K'' \<mapsto> ''60%'', ''L'' \<mapsto> ''80%'']"

definition eligibleCircles :: "State \<Rightarrow> string \<Rightarrow> Body list" where
  "eligibleCircles s action =
     filter (\<lambda>circle. keyToColumn action = Some (cx circle)
                     \<and> \<bar>start (note' circle) - time s\<bar> < 7 / 10
                     \<and> rendered circle \<and> \<not> played circle)
            (circles s)"

text \<open>
  \<^verbatim>\<open>eligibleCircles.reduce(f, eligibleCircles[0])\<close>: the fold starts from the first
  candidate and visits every candidate; on no candidate the result is \<^verbatim>\<open>undefined\<close>.
\<close>

definition prioritizedCircle :: "State \<Rightarrow> string \<Rightarrow> Body option" where
  "prioritizedCircle s action =
     (case eligibleCircles s action of
        [] \<Rightarrow> None
      | e # _ \<Rightarrow>
          Some (foldl (\<lambda>acc other. if start (note' other) < start (note' acc) then other else acc)
                      e (eligibleCircles s action)))"

text \<open>
  The \<^verbatim>\<open>updatedCircles\<close> of the lane branch. \<^verbatim>\<open>circle === prioritizedCircle\<close> compares
  object identities, and is false for every circle when \<^verbatim>\<open>prioritizedCircle\<close> is
  \<^verbatim>\<open>undefined\<close>; the spread builds a new object.
\<close>

definition hitCircles :: "State \<Rightarrow> string \<Rightarrow> Body list" where
  "hitCircles s action =
     map (\<lambda>(a, circle).
            if (case prioritizedCircle s action of None \<Rightarrow> False | Some p \<Rightarrow> bid circle = bid p)
            then circle\<lparr>rendered := False, played := True, bid := a\<rparr>
            else circle)
         (enumerate (heapTop s) (circles s))"

definition addedPoints :: "State \<Rightarrow> string \<Rightarrow> rat" where
  "addedPoints s action =
     (case prioritizedCircle s action of
        Some p \<Rightarrow>
          if \<bar>start (note' p) - time s\<bar> < Time_FORGIVING_MARGIN then 10 else 5
      | None \<Rightarrow> 0)"

definition reducer :: "State \<Rightarrow> string \<Rightarrow> State" where
  "reducer s action =
     (if action = ''Esc'' then s\<lparr>paused := \<not> paused s\<rparr>
      else if paused s = False then
        (if action = ''tick'' then tick s
         else s\<lparr>circles := hitCircles s action,
                score := score s + addedPoints s action,
                heapTop := heapTop s + length (circles s)\<rparr>)
      else s)"

text \<open>The four lane identifiers that \<^verbatim>\<open>keyPress$\<close> emits besides \<^verbatim>\<open>"Esc"\<close>.\<close>

definition laneKey :: "string \<Rightarrow> bool" where
  "laneKey action = (action = ''H'' \<or> action = ''J'' \<or> action = ''K'' \<or> action = ''L'')"

subsection \<open>The initial state of \<^verbatim>\<open>main\<close> and a running example\<close>


text \<open>
  The running example: two user notes and one autonomous note. In \<open>scenarioState\<close>, at
  time \<open>1/2\<close>, the token of the first user note is half way down, the autonomous note is
  due, and the second user note is about to get its token. \<open>hitState\<close> is the instant at
  which the first user note is due.
\<close>

definition scenarioNote :: Note where
  "scenarioNote = \<lparr>nid = 0, user_played = True, instrument = ''piano'', velocity = 80,
                   pitch = 60, start = 2, end' = 5 / 2, played_at = None\<rparr>"

definition secondNote :: Note where
  "secondNote = \<lparr>nid = 1, user_played = True, instrument = ''piano'', velocity = 80,
                 pitch = 61, start = 4, end' = 9 / 2, played_at = None\<rparr>"

definition scenarioAuto :: Note where
  "scenarioAuto = \<lparr>nid = 2, user_played = False, instrument = ''violin'', velocity = 64,
                   pitch = 48, start = 1 / 2, end' = 3 / 2, played_at = None\<rparr>"

definition scenarioBody :: Body where
  "scenarioBody = \<lparr>bid = 3, r = 14, cx = ''20%'', cy = 200, style = ''fill: green'',
                   class' = ''shadow'', rendered = True, note' = scenarioNote, played = False\<rparr>"

definition scenarioState :: State where
  "scenarioState =
     \<lparr>gameEnd = False, circles = [scenarioBody],
      notes' = [scenarioNote, secondNote, scenarioAuto], autoNotes = [scenarioAuto],
      userNotes = [scenarioNote, secondNote], noteIndex = 0, time = 1 / 2,
      lastNote = secondNote, score = 0, paused = False, heapTop = 4\<rparr>"

definition hitState :: State where
  "hitState = scenarioState\<lparr>time := 2\<rparr>"




subsection \<open>The score parser\<close>

text \<open>
  The parser is modelled on the values it really builds. A column that a row lacks is
  \<^verbatim>\<open>undefined\<close> (\<open>None\<close>), and a number that \<^verbatim>\<open>Number\<close> cannot read is \<^verbatim>\<open>NaN\<close>; the
  object literal is cast \<^verbatim>\<open>as NoteData\<close> without a check, so a parsed note is a
  \<open>NoteData\<close> record over optional strings and \<open>jsnum\<close>. The only expression of the
  parser that can raise is \<^verbatim>\<open>user_played.trim()\<close>, on an undefined first column.

  The string-to-number conversion of the platform is a parameter \<open>N\<close> of the parser.
  \<open>decimal\<close> is that conversion on plain decimal literals (optional sign, digits,
  optional fraction, surrounding white space; the empty string is 0), which is all a
  score file uses; it is the instance at which the parser is run on concrete files.
  Strings are taken as sequences of ASCII characters.
\<close>

datatype jsnum = Num rat | NaN

datatype error = TypeError

definition isSpace :: "char \<Rightarrow> bool" where
  "isSpace c \<longleftrightarrow> c \<in> set [CHR 0x09, CHR 0x0A, CHR 0x0B, CHR 0x0C, CHR 0x0D, CHR '' '']"

definition trim :: "string \<Rightarrow> string" where
  "trim s = rev (dropWhile isSpace (rev (dropWhile isSpace s)))"

fun split :: "char \<Rightarrow> string \<Rightarrow> string list" where
  "split sep [] = [[]]"
| "split sep (c # cs) =
     (if c = sep then [] # split sep cs
      else (case split sep cs of w # ws \<Rightarrow> (c # w) # ws | [] \<Rightarrow> [[c]]))"

definition col :: "string list \<Rightarrow> nat \<Rightarrow> string option" where
  "col cols i = (if i < length cols then Some (cols ! i) else None)"

definition Number :: "(string \<Rightarrow> jsnum) \<Rightarrow> string option \<Rightarrow> jsnum" where
  "Number N v = (case v of None \<Rightarrow> NaN | Some str \<Rightarrow> N str)"

definition mapNum :: "(rat \<Rightarrow> rat) \<Rightarrow> jsnum \<Rightarrow> jsnum" where
  "mapNum f v = (case v of NaN \<Rightarrow> NaN | Num x \<Rightarrow> Num (f x))"

definition js_gt :: "jsnum \<Rightarrow> jsnum \<Rightarrow> bool" where
  "js_gt v w = (case (v, w) of (Num x, Num y) \<Rightarrow> x > y | _ \<Rightarrow> False)"

definition isDigit :: "char \<Rightarrow> bool" where
  "isDigit c \<longleftrightarrow> 48 \<le> (of_char c :: nat) \<and> (of_char c :: nat) \<le> 57"

definition digitsValue :: "string \<Rightarrow> rat" where
  "digitsValue ds = foldl (\<lambda>acc c. acc * 10 + of_nat (of_char c - 48)) 0 ds"

definition unsignedDecimal :: "string \<Rightarrow> jsnum" where
  "unsignedDecimal t =
     (let ip = takeWhile isDigit t; rest = dropWhile isDigit t in
      if rest = [] then (if ip = [] then NaN else Num (digitsValue ip))
      else if hd rest = CHR ''.'' \<and> list_all isDigit (tl rest) \<and> (ip \<noteq> [] \<or> tl rest \<noteq> [])
      then Num (digitsValue ip + digitsValue (tl rest) / 10 ^ length (tl rest))
      else NaN)"

definition decimal :: "string \<Rightarrow> jsnum" where
  "decimal str =
     (let t = trim str in
      if t = [] then Num 0
      else if hd t = CHR ''-'' then mapNum uminus (unsignedDecimal (tl t))
      else if hd t = CHR ''+'' then unsignedDecimal (tl t)
      else unsignedDecimal t)"

type_synonym RawNote = "(string option, jsnum) NoteData"

definition parseRow :: "(string \<Rightarrow> jsnum) \<Rightarrow> addr \<Rightarrow> string \<Rightarrow> error + RawNote" where
  "parseRow N a row =
     (let cols = split CHR '','' row in
      case col cols 0 of
        None \<Rightarrow> Inl TypeError
      | Some up \<Rightarrow>
          Inr \<lparr>nid = a, user_played = (trim up = ''True''), instrument = col cols 1,
               velocity = Number N (col cols 2), pitch = Number N (col cols 3),
               start = mapNum (\<lambda>x. Math_round (x * 100) / 100) (Number N (col cols 4)),
               end' = Number N (col cols 5), played_at = None\<rparr>)"

fun mapE :: "('a \<Rightarrow> error + 'b) \<Rightarrow> 'a list \<Rightarrow> error + 'b list" where
  "mapE f [] = Inr []"
| "mapE f (x # xs) =
     (case f x of
        Inl e \<Rightarrow> Inl e
      | Inr y \<Rightarrow> (case mapE f xs of Inl e \<Rightarrow> Inl e | Inr ys \<Rightarrow> Inr (y # ys)))"

definition parseNotes :: "(string \<Rightarrow> jsnum) \<Rightarrow> string \<Rightarrow> error + RawNote list" where
  "parseNotes N csv =
     mapE (\<lambda>(a, row). parseRow N a row) (enumerate 0 (drop 1 (split CHR 0x0A (trim csv))))"

definition findLast :: "RawNote list \<Rightarrow> RawNote option" where
  "findLast ns =
     (case ns of
        [] \<Rightarrow> None
      | n # _ \<Rightarrow> Some (foldl (\<lambda>acc other. if js_gt (end' other) (end' acc) then other else acc) n ns))"

definition startGame ::
  "(string \<Rightarrow> jsnum) \<Rightarrow> string \<Rightarrow> error + (RawNote list \<times> RawNote list \<times> RawNote list \<times> RawNote option)" where
  "startGame N contents =
     (case parseNotes N contents of
        Inl e \<Rightarrow> Inl e
      | Inr ns \<Rightarrow> Inr (ns, filter user_played ns, filter (\<lambda>n. \<not> user_played n) ns, findLast ns))"

definition scoreFile :: string where
  "scoreFile = ''user_played,instrument,velocity,pitch,start,end\<newline>True,piano,80,60,2.00,2.50\<newline>True,piano,abc\<newline>''"

subsection \<open>Well-formed token sequences\<close>


subsection \<open>Double-precision numbers\<close>

text \<open>
  A \<^verbatim>\<open>number\<close> of the platform is an IEEE 754 binary64 value: a finite value, an
  infinity or \<^verbatim>\<open>NaN\<close>. A finite double is \<open>Finite x\<close> for a rational \<open>x\<close> with a 53-bit
  significand; every operation below returns such values. The two zeros are one value:
  the program never divides by a variable and never looks at the sign of a zero.

  \<open>round64\<close> is the rounding of an exact result to the nearest double, a tie to the even
  significand: \<open>e\<close> is the binary exponent of the result (not below that of the
  subnormals), \<open>q\<close> the spacing of the doubles at that exponent. A decimal literal of the
  source that is not a double itself, such as \<^verbatim>\<open>0.7\<close>, denotes \<open>round64\<close> of its decimal
  value; a literal that is a double, such as \<^verbatim>\<open>3.5\<close> or \<^verbatim>\<open>1000\<close>, is written \<open>Finite\<close>.
\<close>

datatype double = Finite rat | PosInf | NegInf | NotANumber

text \<open>The exact value of a finite double.\<close>

fun val :: "double \<Rightarrow> rat" where
  "val (Finite x) = x"
| "val x = 0"

definition pow2 :: "int \<Rightarrow> rat" where
  "pow2 e = (if 0 \<le> e then 2 ^ nat e else 1 / 2 ^ nat (- e))"

text \<open>\<open>ilog2 x\<close> is the exponent \<open>e\<close> with \<open>2\<^sup>e \<le> x < 2\<^sup>e\<^sup>+\<^sup>1\<close>, for positive \<open>x\<close>.\<close>

definition ilog2 :: "rat \<Rightarrow> int" where
  "ilog2 x = (let (p, q) = quotient_of x; e = bitlen p - bitlen q in
              if pow2 e \<le> x then e else e - 1)"

definition roundHalfEven :: "rat \<Rightarrow> int" where
  "roundHalfEven x =
     (let f = \<lfloor>x\<rfloor>; d = x - of_int f in
      if d < 1 / 2 then f else if 1 / 2 < d then f + 1 else if even f then f else f + 1)"

definition round64 :: "rat \<Rightarrow> double" where
  "round64 x =
     (if x = 0 then Finite 0
      else let e = max (ilog2 \<bar>x\<bar>) (- 1022) in
           if 1024 \<le> e then (if 0 < x then PosInf else NegInf)
           else let q = pow2 (e - 52);
                    n = roundHalfEven (\<bar>x\<bar> / q)
                in if e = 1023 \<and> 2 ^ 53 \<le> n then (if 0 < x then PosInf else NegInf)
                   else Finite (if 0 < x then of_int n * q else - (of_int n * q)))"

text \<open>The operators \<^verbatim>\<open>-x\<close>, \<^verbatim>\<open>+\<close>, \<^verbatim>\<open>-\<close>, \<^verbatim>\<open>*\<close>, \<^verbatim>\<open>/\<close> and \<^verbatim>\<open>%\<close>.\<close>

fun fneg :: "double \<Rightarrow> double" where
  "fneg (Finite a) = Finite (- a)"
| "fneg PosInf = NegInf"
| "fneg NegInf = PosInf"
| "fneg NotANumber = NotANumber"

fun fadd :: "double \<Rightarrow> double \<Rightarrow> double" where
  "fadd (Finite a) (Finite b) = round64 (a + b)"
| "fadd NotANumber y = NotANumber"
| "fadd x NotANumber = NotANumber"
| "fadd PosInf NegInf = NotANumber"
| "fadd NegInf PosInf = NotANumber"
| "fadd PosInf y = PosInf"
| "fadd x PosInf = PosInf"
| "fadd NegInf y = NegInf"
| "fadd x NegInf = NegInf"

definition fsub :: "double \<Rightarrow> double \<Rightarrow> double" where
  "fsub x y = fadd x (fneg y)"

definition signedInf :: "bool \<Rightarrow> double" where
  "signedInf positive = (if positive then PosInf else NegInf)"

fun fmul :: "double \<Rightarrow> double \<Rightarrow> double" where
  "fmul (Finite a) (Finite b) = round64 (a * b)"
| "fmul NotANumber y = NotANumber"
| "fmul x NotANumber = NotANumber"
| "fmul (Finite a) PosInf = (if a = 0 then NotANumber else signedInf (0 < a))"
| "fmul (Finite a) NegInf = (if a = 0 then NotANumber else signedInf (a < 0))"
| "fmul PosInf (Finite b) = (if b = 0 then NotANumber else signedInf (0 < b))"
| "fmul NegInf (Finite b) = (if b = 0 then NotANumber else signedInf (b < 0))"
| "fmul PosInf PosInf = PosInf"
| "fmul NegInf NegInf = PosInf"
| "fmul PosInf NegInf = NegInf"
| "fmul NegInf PosInf = NegInf"

fun fdiv :: "double \<Rightarrow> double \<Rightarrow> double" where
  "fdiv (Finite a) (Finite b) =
     (if b = 0 then (if a = 0 then NotANumber else signedInf (0 < a)) else round64 (a / b))"
| "fdiv NotANumber y = NotANumber"
| "fdiv x NotANumber = NotANumber"
| "fdiv (Finite a) y = Finite 0"
| "fdiv PosInf (Finite b) = signedInf (0 \<le> b)"
| "fdiv NegInf (Finite b) = signedInf (b < 0)"
| "fdiv x y = NotANumber"

text \<open>The remainder of two doubles is a double: \<^verbatim>\<open>%\<close> does not round.\<close>

fun frem :: "double \<Rightarrow> double \<Rightarrow> double" where
  "frem (Finite a) (Finite b) = (if b = 0 then NotANumber else Finite (js_rem a b))"
| "frem NotANumber y = NotANumber"
| "frem x NotANumber = NotANumber"
| "frem (Finite a) y = Finite a"
| "frem x y = NotANumber"

text \<open>
  The comparisons \<^verbatim>\<open><\<close>, \<^verbatim>\<open>===\<close>, \<^verbatim>\<open><=\<close>, \<^verbatim>\<open>>\<close>, \<^verbatim>\<open>>=\<close>: each is false as soon as an
  operand is \<^verbatim>\<open>NaN\<close>.
\<close>

fun flt :: "double \<Rightarrow> double \<Rightarrow> bool" where
  "flt (Finite a) (Finite b) = (a < b)"
| "flt NotANumber y = False"
| "flt x NotANumber = False"
| "flt x NegInf = False"
| "flt PosInf y = False"
| "flt NegInf y = True"
| "flt x PosInf = True"

fun feq :: "double \<Rightarrow> double \<Rightarrow> bool" where
  "feq (Finite a) (Finite b) = (a = b)"
| "feq PosInf PosInf = True"
| "feq NegInf NegInf = True"
| "feq x y = False"

definition fle :: "double \<Rightarrow> double \<Rightarrow> bool" where
  "fle x y = (flt x y \<or> feq x y)"

definition fgt :: "double \<Rightarrow> double \<Rightarrow> bool" where
  "fgt x y = flt y x"

definition fge :: "double \<Rightarrow> double \<Rightarrow> bool" where
  "fge x y = fle y x"

fun Math_abs :: "double \<Rightarrow> double" where
  "Math_abs (Finite a) = Finite \<bar>a\<bar>"
| "Math_abs NotANumber = NotANumber"
| "Math_abs x = PosInf"

text \<open>
  \<^verbatim>\<open>Math.round\<close> of a double is an integer that is a double again: nothing is rounded a
  second time.
\<close>

fun Math_round64 :: "double \<Rightarrow> double" where
  "Math_round64 (Finite a) = Finite (Math_round a)"
| "Math_round64 x = x"

subsection \<open>The engine on doubles\<close>

text \<open>
  The functions of the engine once more, now with \<^verbatim>\<open>number\<close> as \<open>double\<close> and every
  operator of the source as the operation on doubles. A name carries the suffix \<open>64\<close>
  where the exact engine above has the plain name. \<open>keyToColumn\<close> and \<open>laneKey\<close> involve no
  number and are shared.
\<close>

type_synonym Note64 = "(string, double) NoteData"
type_synonym Body64 = "double Body_of"
type_synonym State64 = "double State_of"

definition Viewport_CANVAS_WIDTH64 :: double where "Viewport_CANVAS_WIDTH64 = Finite 200"
definition Viewport_LAST_POSITION64 :: double where "Viewport_LAST_POSITION64 = Finite 350"
definition Constants_TICK_RATE_MS64 :: double where "Constants_TICK_RATE_MS64 = Finite 10"
definition Note_RADIUS64 :: double where
  "Note_RADIUS64 = fmul (round64 (7 / 100)) Viewport_CANVAS_WIDTH64"
definition Time_OFFSET64 :: double where "Time_OFFSET64 = Finite (7 / 2)"
definition Time_FORGIVING_MARGIN64 :: double where "Time_FORGIVING_MARGIN64 = round64 (3 / 10)"

definition circleX64 :: "double \<Rightarrow> string list" where
  "circleX64 p =
     (let c = frem p (Finite 4) in
      if feq c (Finite 0) then [''20%'', ''fill: green'']
      else if feq c (Finite 1) then [''40%'', ''fill: red'']
      else if feq c (Finite 2) then [''60%'', ''fill: blue'']
      else if feq c (Finite 3) then [''80%'', ''fill: yellow'']
      else [''20%'', ''fill: green''])"

definition updatedTime64 :: "State64 \<Rightarrow> double" where
  "updatedTime64 s = fadd (time s) (fdiv Constants_TICK_RATE_MS64 (Finite 1000))"

definition roundedTime64 :: "State64 \<Rightarrow> double" where
  "roundedTime64 s = fdiv (Math_round64 (fmul (updatedTime64 s) (Finite 1000))) (Finite 1000)"

definition updatedNotes64 :: "State64 \<Rightarrow> Note64 list" where
  "updatedNotes64 s =
     map (\<lambda>(a, n).
            if played_at n = None \<and> flt (start n) (roundedTime64 s) \<and> fge (start n) (time s)
            then n\<lparr>played_at := Some (time s), nid := a\<rparr>
            else n)
         (enumerate (heapTop s) (filter (\<lambda>n. fgt (end' n) (time s)) (autoNotes s)))"

definition newNotes64 :: "State64 \<Rightarrow> Note64 list" where
  "newNotes64 s =
     filter (\<lambda>n. flt (start n) (fadd (roundedTime64 s) Time_OFFSET64)
                 \<and> fge (start n) (fadd (time s) Time_OFFSET64))
            (userNotes s)"

definition newCircles64 :: "State64 \<Rightarrow> Body64 list" where
  "newCircles64 s =
     map (\<lambda>(a, n).
            \<lparr>bid = a, r = Note_RADIUS64, cx = circleX64 (pitch n) ! 0, cy = Finite 0,
             style = circleX64 (pitch n) ! 1, class' = ''shadow'', rendered = True,
             note' = n, played = False\<rparr>)
         (enumerate (heapTop s + length (autoNotes s)) (newNotes64 s))"

definition oldCircles64 :: "State64 \<Rightarrow> Body64 list" where
  "oldCircles64 s =
     map (\<lambda>(a, circle).
            if fge (cy circle) Viewport_LAST_POSITION64
            then circle\<lparr>cy := cy circle, rendered := False, bid := a\<rparr>
            else circle\<lparr>cy := fadd (cy circle) (Finite 1), bid := a\<rparr>)
         (enumerate (heapTop s + length (autoNotes s) + length (userNotes s))
                    (filter rendered (circles s)))"

definition updatedCircles64 :: "State64 \<Rightarrow> Body64 list" where
  "updatedCircles64 s = oldCircles64 s @ newCircles64 s"

definition didGameEnd64 :: "State64 \<Rightarrow> bool" where
  "didGameEnd64 s =
     (if fge (end' (lastNote s)) (Finite 0) \<and> fgt (time s) (end' (lastNote s)) then True else False)"

definition tick64 :: "State64 \<Rightarrow> State64" where
  "tick64 s =
     s\<lparr>gameEnd := didGameEnd64 s,
       circles := updatedCircles64 s,
       notes' := updatedNotes64 s,
       noteIndex := noteIndex s,
       time := roundedTime64 s,
       autoNotes := updatedNotes64 s,
       userNotes := userNotes s,
       heapTop := heapTop s + length (autoNotes s) + length (userNotes s) + length (circles s)\<rparr>"

definition eligibleCircles64 :: "State64 \<Rightarrow> string \<Rightarrow> Body64 list" where
  "eligibleCircles64 s action =
     filter (\<lambda>circle. keyToColumn action = Some (cx circle)
                     \<and> flt (Math_abs (fsub (start (note' circle)) (time s))) (round64 (7 / 10))
                     \<and> rendered circle \<and> \<not> played circle)
            (circles s)"

definition prioritizedCircle64 :: "State64 \<Rightarrow> string \<Rightarrow> Body64 option" where
  "prioritizedCircle64 s action =
     (case eligibleCircles64 s action of
        [] \<Rightarrow> None
      | e # _ \<Rightarrow>
          Some (foldl (\<lambda>acc other. if flt (start (note' other)) (start (note' acc)) then other else acc)
                      e (eligibleCircles64 s action)))"

definition hitCircles64 :: "State64 \<Rightarrow> string \<Rightarrow> Body64 list" where
  "hitCircles64 s action =
     map (\<lambda>(a, circle).
            if (case prioritizedCircle64 s action of None \<Rightarrow> False | Some p \<Rightarrow> bid circle = bid p)
            then circle\<lparr>rendered := False, played := True, bid := a\<rparr>
            else circle)
         (enumerate (heapTop s) (circles s))"

definition addedPoints64 :: "State64 \<Rightarrow> string \<Rightarrow> double" where
  "addedPoints64 s action =
     (case prioritizedCircle64 s action of
        Some p \<Rightarrow>
          if flt (Math_abs (fsub (start (note' p)) (time s))) Time_FORGIVING_MARGIN64
          then Finite 10 else Finite 5
      | None \<Rightarrow> Finite 0)"

definition reducer64 :: "State64 \<Rightarrow> string \<Rightarrow> State64" where
  "reducer64 s action =
     (if action = ''Esc'' then s\<lparr>paused := \<not> paused s\<rparr>
      else if paused s = False then
        (if action = ''tick'' then tick64 s
         else s\<lparr>circles := hitCircles64 s action,
                score := fadd (score s) (addedPoints64 s action),
                heapTop := heapTop s + length (circles s)\<rparr>)
      else s)"

definition initialState64 :: "Note64 list \<Rightarrow> Note64 list \<Rightarrow> Note64 list \<Rightarrow> Note64 \<Rightarrow> addr \<Rightarrow> State64" where
  "initialState64 Notes UserNotes AutoNotes LastNote a0 =
     \<lparr>gameEnd = False, circles = [], notes' = Notes, autoNotes = AutoNotes,
      userNotes = UserNotes, noteIndex = Finite 0, time = fneg Time_OFFSET64, lastNote = LastNote,
      score = Finite 0, paused = False, heapTop = a0\<rparr>"

text \<open>
  The invariant of the token sequence once more, with the comparison of doubles.
\<close>

definition tokensInv64 :: "State64 \<Rightarrow> bool" where
  "tokensInv64 s \<longleftrightarrow>
     distinct (map nid (userNotes s))
     \<and> distinct (map (nid \<circ> note') (circles s))
     \<and> (\<forall>c \<in> set (circles s). note' c \<in> set (userNotes s)
                               \<and> flt (start (note' c)) (fadd (time s) Time_OFFSET64))
     \<and> distinct (map bid (circles s))
     \<and> (\<forall>c \<in> set (circles s). bid c < heapTop s)"

text \<open>
  The running example on doubles. \<open>tokenAt st t\<close> is the state at time \<open>t\<close> whose one
  token, in the first column, is bound to a note that starts at \<open>st\<close>; \<open>chordState\<close> has
  three candidates in the first column, the last two with the same start, and a token in
  the second column.
\<close>

definition scenarioNote64 :: Note64 where
  "scenarioNote64 = \<lparr>nid = 0, user_played = True, instrument = ''piano'', velocity = Finite 80,
                     pitch = Finite 60, start = Finite 2, end' = Finite (5 / 2), played_at = None\<rparr>"

definition secondNote64 :: Note64 where
  "secondNote64 = \<lparr>nid = 1, user_played = True, instrument = ''piano'', velocity = Finite 80,
                   pitch = Finite 61, start = Finite 4, end' = Finite (9 / 2), played_at = None\<rparr>"

definition scenarioAuto64 :: Note64 where
  "scenarioAuto64 = \<lparr>nid = 2, user_played = False, instrument = ''violin'', velocity = Finite 64,
                     pitch = Finite 48, start = Finite (1 / 2), end' = Finite (3 / 2),
                     played_at = None\<rparr>"

definition scenarioBody64 :: Body64 where
  "scenarioBody64 = \<lparr>bid = 3, r = Note_RADIUS64, cx = ''20%'', cy = Finite 200,
                     style = ''fill: green'', class' = ''shadow'', rendered = True,
                     note' = scenarioNote64, played = False\<rparr>"

definition scenarioState64 :: State64 where
  "scenarioState64 =
     \<lparr>gameEnd = False, circles = [scenarioBody64],
      notes' = [scenarioNote64, secondNote64, scenarioAuto64], autoNotes = [scenarioAuto64],
      userNotes = [scenarioNote64, secondNote64], noteIndex = Finite 0, time = Finite (1 / 2),
      lastNote = secondNote64, score = Finite 0, paused = False, heapTop = 4\<rparr>"

definition tokenAt :: "double \<Rightarrow> double \<Rightarrow> State64" where
  "tokenAt st t =
     scenarioState64\<lparr>circles := [scenarioBody64\<lparr>note' := scenarioNote64\<lparr>start := st\<rparr>\<rparr>],
                     time := t\<rparr>"

definition chordState :: State64 where
  "chordState =
     scenarioState64\<lparr>circles :=
       [scenarioBody64\<lparr>bid := 10, note' := scenarioNote64\<lparr>nid := 10, start := round64 (11 / 5)\<rparr>\<rparr>,
        scenarioBody64\<lparr>bid := 11, note' := scenarioNote64\<lparr>nid := 11, start := round64 (19 / 10)\<rparr>\<rparr>,
        scenarioBody64\<lparr>bid := 12, note' := scenarioNote64\<lparr>nid := 12, start := round64 (19 / 10)\<rparr>\<rparr>,
        scenarioBody64\<lparr>bid := 13, cx := ''40%'', note' := scenarioNote64\<lparr>nid := 13\<rparr>\<rparr>],
      time := Finite 2, heapTop := 14\<rparr>"

text \<open>
  \<open>nanAuto\<close> is the autonomous note that \<open>parseNotes\<close> builds from the one row of
  \<open>nanFile\<close>, which lacks its last column: its end is \<^verbatim>\<open>NaN\<close>. \<open>spawnStart\<close> is the initial state of a score whose one user
  note starts at 0.02; in \<open>spawnState\<close>, at time -1.5, the one user note starts at 2.01.
\<close>

definition nanFile :: string where
  "nanFile = ''user_played,instrument,velocity,pitch,start,end\<newline>False,violin,64,48,0.5''"

definition nanAuto :: Note64 where
  "nanAuto = scenarioAuto64\<lparr>end' := NotANumber\<rparr>"

definition nanState :: State64 where
  "nanState = scenarioState64\<lparr>autoNotes := [nanAuto]\<rparr>"

definition spawnNote :: Note64 where
  "spawnNote = scenarioNote64\<lparr>start := round64 (2 / 100), end' := Finite (1 / 2)\<rparr>"

definition spawnStart :: State64 where
  "spawnStart = initialState64 [spawnNote] [spawnNote] [] spawnNote 1"

definition spawnState :: State64 where
  "spawnState =
     scenarioState64\<lparr>circles := [], userNotes := [scenarioNote64\<lparr>start := round64 (201 / 100)\<rparr>],
                     time := Finite (- 3 / 2)\<rparr>"

subsection \<open>The random number generator \<^verbatim>\<open>RNG\<close>\<close>




section \<open>Properties\<close>


lemmas scenario64_defs = scenarioState64_def scenarioBody64_def scenarioNote64_def
  secondNote64_def scenarioAuto64_def

subsection \<open>Rounding in the exact engine\<close>

lemma floor_rat_numeral [simp]: "\<lfloor>numeral a / numeral b :: rat\<rfloor> = numeral a div numeral b"
  by (metis floor_divide_of_int_eq of_int_numeral)

lemma floor_rat_neg_numeral [simp]: "\<lfloor>- (numeral a / numeral b) :: rat\<rfloor> = - numeral a div numeral b"
  by (metis floor_divide_of_int_eq of_int_numeral of_int_minus minus_divide_left)


lemma roundedTime_grid:
  "time s = of_int k / 1000 \<Longrightarrow> roundedTime s = time s + 1 / 100"
proof -
  assume t: "time s = of_int k / 1000"
  have "(time s + Constants_TICK_RATE_MS / 1000) * 1000 + 1 / 2 = of_int (k + 10) + 1 / 2"
    by (simp add: t Constants_TICK_RATE_MS_def algebra_simps)
  then have "Math_round ((time s + Constants_TICK_RATE_MS / 1000) * 1000) = of_int (k + 10)"
    unfolding Math_round_def by (simp add: floor_unique)
  then show ?thesis by (simp add: roundedTime_def t)
qed

subsection \<open>Tick: basic facts\<close>

lemma tick_fields [simp]:
  "time (tick s) = roundedTime s" "userNotes (tick s) = userNotes s"
  "lastNote (tick s) = lastNote s" "paused (tick s) = paused s"
  "gameEnd (tick s) = didGameEnd s" "circles (tick s) = updatedCircles s"
  "autoNotes (tick s) = updatedNotes s" "score (tick s) = score s"
  by (simp_all add: tick_def)

lemma js_rem_nat: "0 < m \<Longrightarrow> js_rem (of_nat k) (of_nat m) = of_nat (k mod m)"
proof -
  assume m: "0 < m"
  have f: "\<lfloor>(of_nat k :: rat) / of_nat m\<rfloor> = int (k div m)"
    by (rule floor_divide_of_nat_eq)
  have "\<not> (of_nat k :: rat) / of_nat m < 0" by (simp add: not_less)
  then have "js_rem (of_nat k) (of_nat m) = of_nat k - of_nat m * of_int (int (k div m))"
    unfolding js_rem_def using f by simp
  also have "\<dots> = of_nat k - of_nat (m * (k div m))" by simp
  also have "\<dots> = of_nat (k - m * (k div m))"
    by (rule of_nat_diff [symmetric]) simp
  also have "k - m * (k div m) = k mod m" by (simp add: minus_mult_div_eq_mod)
  finally show ?thesis .
qed

lemma filter_nth_holds: "i < length (filter P xs) \<Longrightarrow> P (filter P xs ! i)"
  using nth_mem [of i "filter P xs"] by simp


subsection \<open>Lane keys\<close>

lemma reducer_lane:
  "\<not> paused s \<Longrightarrow> laneKey action \<Longrightarrow>
   reducer s action = s\<lparr>circles := hitCircles s action, score := score s + addedPoints s action,
                        heapTop := heapTop s + length (circles s)\<rparr>"
  by (auto simp: reducer_def laneKey_def)

text \<open>
  Claim C10. In an unpaused state a lane key leaves the time, the game-end flag, the pause
  flag, the autonomous notes, the user notes and the last note as they are (and the full
  note list and the note index too): only the tokens and the score can change.
\<close>

theorem lane_frame:
  "\<not> paused s \<Longrightarrow> laneKey action \<Longrightarrow>
   time (reducer s action) = time s \<and> gameEnd (reducer s action) = gameEnd s
   \<and> paused (reducer s action) = paused s \<and> autoNotes (reducer s action) = autoNotes s
   \<and> userNotes (reducer s action) = userNotes s \<and> lastNote (reducer s action) = lastNote s
   \<and> notes' (reducer s action) = notes' s \<and> noteIndex (reducer s action) = noteIndex s"
  by (simp add: reducer_lane)

theorem lane_frame_witness:
  "\<not> paused hitState \<and> laneKey ''H'' \<and> time (reducer hitState ''H'') = 2
   \<and> \<not> gameEnd (reducer hitState ''H'') \<and> \<not> paused (reducer hitState ''H'')
   \<and> autoNotes (reducer hitState ''H'') = [scenarioAuto]
   \<and> userNotes (reducer hitState ''H'') = [scenarioNote, secondNote]
   \<and> lastNote (reducer hitState ''H'') = secondNote"
  using lane_frame [of hitState "''H''"]
  by (simp add: hitState_def scenarioState_def laneKey_def)

subsection \<open>Pause\<close>

text \<open>
  Claim C5. In a paused state every action other than the pause toggle, a tick or a lane
  key among them, returns the state itself: every field is equal, and in particular the
  time does not move.
\<close>

theorem paused_freeze:
  "paused s \<Longrightarrow> action \<noteq> ''Esc'' \<Longrightarrow> reducer s action = s \<and> time (reducer s action) = time s"
  by (simp add: reducer_def)

theorem paused_freeze_witness:
  "paused (scenarioState\<lparr>paused := True\<rparr>) \<and> ''tick'' \<noteq> ''Esc'' \<and> ''H'' \<noteq> ''Esc''
   \<and> reducer (scenarioState\<lparr>paused := True\<rparr>) ''tick'' = scenarioState\<lparr>paused := True\<rparr>
   \<and> reducer (scenarioState\<lparr>paused := True\<rparr>) ''H'' = scenarioState\<lparr>paused := True\<rparr>"
  using paused_freeze [of "scenarioState\<lparr>paused := True\<rparr>" "''tick''"]
    paused_freeze [of "scenarioState\<lparr>paused := True\<rparr>" "''H''"]
  by simp

subsection \<open>One token per note\<close>















subsection \<open>Game end\<close>






subsection \<open>The score parser\<close>

lemma split_nonempty: "split sep str \<noteq> []"
  by (induction str) (auto split: list.splits)

lemma parseRow_total: "\<exists>n. parseRow N a row = Inr n"
  using split_nonempty [of "CHR '',''" row]
  by (cases "split CHR '','' row") (simp_all add: parseRow_def col_def Let_def)

lemma parseRow_missing:
  "parseRow N a row = Inr n \<Longrightarrow>
   (length (split CHR '','' row) < 6 \<longrightarrow> end' n = NaN)
   \<and> (length (split CHR '','' row) < 5 \<longrightarrow> start n = NaN)
   \<and> (length (split CHR '','' row) < 4 \<longrightarrow> pitch n = NaN)
   \<and> (length (split CHR '','' row) < 3 \<longrightarrow> velocity n = NaN)"
  by (auto simp: parseRow_def col_def Let_def Number_def mapNum_def split: if_splits)

lemma parseRow_nid: "parseRow N a row = Inr n \<Longrightarrow> nid n = a"
  by (auto simp: parseRow_def col_def Let_def split: if_splits)

lemma mapE_total:
  "\<forall>x \<in> set xs. \<exists>y. f x = Inr y \<Longrightarrow>
   \<exists>ys. mapE f xs = Inr ys \<and> length ys = length xs \<and> (\<forall>i < length xs. f (xs ! i) = Inr (ys ! i))"
proof (induction xs)
  case Nil
  then show ?case by simp
next
  case (Cons x xs)
  then obtain y ys where y: "f x = Inr y" and ys: "mapE f xs = Inr ys" "length ys = length xs"
    "\<forall>i < length xs. f (xs ! i) = Inr (ys ! i)"
    by auto
  have "\<forall>i < length (x # xs). f ((x # xs) ! i) = Inr ((y # ys) ! i)"
    using y ys by (auto simp: nth_Cons split: nat.splits)
  then show ?case using y ys by simp
qed

lemma parseNotes_rows:
  "\<exists>ns. parseNotes N csv = Inr ns
      \<and> length ns = length (drop 1 (split CHR 0x0A (trim csv)))
      \<and> (\<forall>i < length ns. parseRow N i (drop 1 (split CHR 0x0A (trim csv)) ! i) = Inr (ns ! i))"
proof -
  let ?rows = "drop 1 (split CHR 0x0A (trim csv))"
  have "\<forall>x \<in> set (enumerate 0 ?rows). \<exists>y. (\<lambda>(a, row). parseRow N a row) x = Inr y"
    using parseRow_total by (auto simp: case_prod_unfold)
  from mapE_total [OF this] obtain ns where ns: "mapE (\<lambda>(a, row). parseRow N a row) (enumerate 0 ?rows) = Inr ns"
    "length ns = length (enumerate 0 ?rows)"
    "\<forall>i < length (enumerate 0 ?rows). (\<lambda>(a, row). parseRow N a row) (enumerate 0 ?rows ! i) = Inr (ns ! i)"
    by blast
  then have "\<forall>i < length ns. parseRow N i (?rows ! i) = Inr (ns ! i)"
    by (simp add: nth_enumerate_eq)
  with ns show ?thesis by (simp add: parseNotes_def)
qed

lemma parseNotes_distinct: "parseNotes N csv = Inr ns \<Longrightarrow> distinct (map nid ns)"
proof -
  assume p: "parseNotes N csv = Inr ns"
  from parseNotes_rows [of N csv] p
  have "\<forall>i < length ns. nid (ns ! i) = i" by (auto dest: parseRow_nid)
  then have "map nid ns = [0 ..< length ns]" by (auto intro: nth_equalityI)
  then show ?thesis by simp
qed

text \<open>
  Claim C8, as the code has it. Whatever the conversion \<open>N\<close> returns and whatever the
  blob holds, \<open>parseNotes\<close> does not fail: it returns one note for each line after the
  header line of the trimmed blob, and a numeric field whose column the line lacks is
  \<^verbatim>\<open>NaN\<close> in the note. \<open>findLast\<close> of the empty list is \<^verbatim>\<open>undefined\<close>, not an error,
  and \<open>startGame\<close> returns the notes, their two partitions and the result of \<open>findLast\<close>
  for every blob.
\<close>

theorem parse_total:
  "(\<exists>ns. parseNotes N csv = Inr ns
        \<and> length ns = length (split CHR 0x0A (trim csv)) - 1
        \<and> (\<forall>i < length ns.
              (length (split CHR '','' (drop 1 (split CHR 0x0A (trim csv)) ! i)) < 6
                 \<longrightarrow> end' (ns ! i) = NaN)
            \<and> (length (split CHR '','' (drop 1 (split CHR 0x0A (trim csv)) ! i)) < 5
                 \<longrightarrow> start (ns ! i) = NaN)
            \<and> (length (split CHR '','' (drop 1 (split CHR 0x0A (trim csv)) ! i)) < 4
                 \<longrightarrow> pitch (ns ! i) = NaN)
            \<and> (length (split CHR '','' (drop 1 (split CHR 0x0A (trim csv)) ! i)) < 3
                 \<longrightarrow> velocity (ns ! i) = NaN)))
   \<and> findLast [] = None
   \<and> (\<exists>ns. startGame N csv = Inr (ns, filter user_played ns, filter (\<lambda>n. \<not> user_played n) ns, findLast ns))"
proof -
  let ?rows = "drop 1 (split CHR 0x0A (trim csv))"
  from parseNotes_rows [of N csv] obtain ns where ns: "parseNotes N csv = Inr ns"
    "length ns = length ?rows"
    "\<forall>i < length ns. parseRow N i (?rows ! i) = Inr (ns ! i)"
    by blast
  have 1: "length ns = length (split CHR 0x0A (trim csv)) - 1" using ns(2) by simp
  have 2: "\<forall>i < length ns.
              (length (split CHR '','' (?rows ! i)) < 6 \<longrightarrow> end' (ns ! i) = NaN)
            \<and> (length (split CHR '','' (?rows ! i)) < 5 \<longrightarrow> start (ns ! i) = NaN)
            \<and> (length (split CHR '','' (?rows ! i)) < 4 \<longrightarrow> pitch (ns ! i) = NaN)
            \<and> (length (split CHR '','' (?rows ! i)) < 3 \<longrightarrow> velocity (ns ! i) = NaN)"
  proof (intro allI impI)
    fix i assume "i < length ns"
    with ns(3) have "parseRow N i (?rows ! i) = Inr (ns ! i)" by simp
    then show "(length (split CHR '','' (?rows ! i)) < 6 \<longrightarrow> end' (ns ! i) = NaN)
            \<and> (length (split CHR '','' (?rows ! i)) < 5 \<longrightarrow> start (ns ! i) = NaN)
            \<and> (length (split CHR '','' (?rows ! i)) < 4 \<longrightarrow> pitch (ns ! i) = NaN)
            \<and> (length (split CHR '','' (?rows ! i)) < 3 \<longrightarrow> velocity (ns ! i) = NaN)"
      by (rule parseRow_missing)
  qed
  have 3: "startGame N csv = Inr (ns, filter user_played ns, filter (\<lambda>n. \<not> user_played n) ns, findLast ns)"
    by (simp add: startGame_def ns(1))
  have 4: "findLast [] = None" by (simp add: findLast_def)
  from ns(1) 1 2 3 4 show ?thesis by blast
qed

theorem parse_total_witness:
  "\<exists>ns. parseNotes decimal scoreFile = Inr ns \<and> length ns = 2
      \<and> end' (ns ! 1) = NaN \<and> start (ns ! 1) = NaN \<and> pitch (ns ! 1) = NaN"
proof -
  have len: "length (split CHR 0x0A (trim scoreFile)) - 1 = 2" by code_simp
  have cols: "length (split CHR '','' (drop 1 (split CHR 0x0A (trim scoreFile)) ! 1)) = 3"
    by code_simp
  from parse_total [of decimal scoreFile] obtain ns
    where "parseNotes decimal scoreFile = Inr ns"
      and "length ns = length (split CHR 0x0A (trim scoreFile)) - 1"
      and "\<forall>i < length ns.
              (length (split CHR '','' (drop 1 (split CHR 0x0A (trim scoreFile)) ! i)) < 6
                 \<longrightarrow> end' (ns ! i) = NaN)
            \<and> (length (split CHR '','' (drop 1 (split CHR 0x0A (trim scoreFile)) ! i)) < 5
                 \<longrightarrow> start (ns ! i) = NaN)
            \<and> (length (split CHR '','' (drop 1 (split CHR 0x0A (trim scoreFile)) ! i)) < 4
                 \<longrightarrow> pitch (ns ! i) = NaN)
            \<and> (length (split CHR '','' (drop 1 (split CHR 0x0A (trim scoreFile)) ! i)) < 3
                 \<longrightarrow> velocity (ns ! i) = NaN)"
    by blast
  with len cols show ?thesis by auto
qed

text \<open>
  A score file whose second row has three columns, the third one not a number, parses to
  two notes, the second one with \<^verbatim>\<open>NaN\<close> in every numeric field; and a file with nothing
  but the header line starts the game with no notes and no last note.
\<close>

theorem parse_malformed_counterexample:
  "parseNotes decimal scoreFile =
     Inr [\<lparr>nid = 0, user_played = True, instrument = Some ''piano'', velocity = Num 80,
           pitch = Num 60, start = Num 2, end' = Num (5 / 2), played_at = None\<rparr>,
          \<lparr>nid = 1, user_played = True, instrument = Some ''piano'', velocity = NaN,
           pitch = NaN, start = NaN, end' = NaN, played_at = None\<rparr>]
   \<and> startGame decimal ''user_played,instrument,velocity,pitch,start,end'' = Inr ([], [], [], None)"
  by code_simp

subsection \<open>Rounding to doubles\<close>

lemma pow2_powi: "pow2 e = 2 powi e"
  by (simp add: pow2_def power_int_def field_simps)

lemma pow2_pos [simp]: "0 < pow2 e"
  by (simp add: pow2_powi)

lemma pow2_add: "pow2 (a + b) = pow2 a * pow2 b"
  by (simp add: pow2_powi power_int_add)

lemma pow2_mono: "a \<le> b \<Longrightarrow> pow2 a \<le> pow2 b"
  by (simp add: pow2_powi power_int_increasing)

lemma pow2_less_iff: "pow2 a < pow2 b \<longleftrightarrow> a < b"
  by (simp add: pow2_powi power_int_strict_increasing) (metis pow2_mono pow2_powi linorder_not_less power_int_strict_increasing one_less_numeral_iff semiring_norm(76))

lemma pow2_nat: "0 \<le> e \<Longrightarrow> pow2 e = of_int (2 ^ nat e)"
  by (simp add: pow2_def)

lemma ilog2_bounds:
  assumes "0 < x"
  shows "pow2 (ilog2 x) \<le> x \<and> x < pow2 (ilog2 x + 1)"
proof -
  obtain p q where pq: "quotient_of x = (p, q)" by (cases "quotient_of x")
  then have q: "0 < q" and x: "x = of_int p / of_int q"
    using quotient_of_denom_pos quotient_of_div by blast+
  from assms x q have p: "0 < p" by (simp add: zero_less_divide_iff)
  let ?e = "bitlen p - bitlen q"
  have bp: "2 ^ nat (bitlen p - 1) \<le> p" "p < 2 ^ nat (bitlen p)"
    using bitlen_bounds [OF p] by simp_all
  have bq: "2 ^ nat (bitlen q - 1) \<le> q" "q < 2 ^ nat (bitlen q)"
    using bitlen_bounds [OF q] by simp_all
  have p1: "1 \<le> bitlen p" using p by (simp add: bitlen_alt_def)
  have q1: "1 \<le> bitlen q" using q by (simp add: bitlen_alt_def)
  have P: "pow2 (bitlen p - 1) \<le> of_int p" "of_int p < pow2 (bitlen p)"
  proof -
    have "pow2 (bitlen p - 1) = of_int (2 ^ nat (bitlen p - 1))" using p1 by (intro pow2_nat) simp
    then show "pow2 (bitlen p - 1) \<le> of_int p" using bp(1) by (simp only: of_int_le_iff)
    have "pow2 (bitlen p) = of_int (2 ^ nat (bitlen p))" using p1 by (intro pow2_nat) simp
    then show "of_int p < pow2 (bitlen p)" using bp(2) by (simp only: of_int_less_iff)
  qed
  have Q: "pow2 (bitlen q - 1) \<le> of_int q" "of_int q < pow2 (bitlen q)"
  proof -
    have "pow2 (bitlen q - 1) = of_int (2 ^ nat (bitlen q - 1))" using q1 by (intro pow2_nat) simp
    then show "pow2 (bitlen q - 1) \<le> of_int q" using bq(1) by (simp only: of_int_le_iff)
    have "pow2 (bitlen q) = of_int (2 ^ nat (bitlen q))" using q1 by (intro pow2_nat) simp
    then show "of_int q < pow2 (bitlen q)" using bq(2) by (simp only: of_int_less_iff)
  qed
  have qpos: "0 < (of_int q :: rat)" using q by simp
  have lo: "pow2 (?e - 1) \<le> x"
  proof -
    have "pow2 (?e - 1) * of_int q \<le> pow2 (?e - 1) * pow2 (bitlen q)"
      using Q(2) by (simp add: less_imp_le)
    also have "\<dots> = pow2 (bitlen p - 1)" by (simp flip: pow2_add)
    also have "\<dots> \<le> of_int p" by (rule P(1))
    finally show ?thesis using qpos by (simp add: x pos_le_divide_eq)
  qed
  have hi: "x < pow2 (?e + 1)"
  proof -
    have "of_int p < pow2 (bitlen p)" by (rule P(2))
    also have "\<dots> = pow2 (?e + 1) * pow2 (bitlen q - 1)" by (simp flip: pow2_add)
    also have "\<dots> \<le> pow2 (?e + 1) * of_int q" using Q(1) by simp
    finally show ?thesis using qpos by (simp add: x pos_divide_less_eq)
  qed
  show ?thesis
  proof (cases "pow2 ?e \<le> x")
    case True
    then have "ilog2 x = ?e" by (simp add: ilog2_def pq)
    with True hi show ?thesis by simp
  next
    case False
    then have "ilog2 x = ?e - 1" by (simp add: ilog2_def pq)
    with False lo show ?thesis by simp
  qed
qed

lemma ilog2_less: "0 < x \<Longrightarrow> x < pow2 k \<Longrightarrow> ilog2 x < k"
  using ilog2_bounds [of x] pow2_less_iff [of "ilog2 x" k] by simp

lemma ilog2_ge: "0 < x \<Longrightarrow> pow2 k \<le> x \<Longrightarrow> k \<le> ilog2 x"
  using ilog2_bounds [of x] pow2_less_iff [of k "ilog2 x + 1"] by simp

lemma roundHalfEven_of_int [simp]: "roundHalfEven (of_int m) = m"
  by (simp add: roundHalfEven_def)



lemma pow2_nonzero [simp]: "pow2 e \<noteq> 0"
  using pow2_pos [of e] by (metis less_irrefl)

lemma divide_pow2: "x / pow2 a = x * pow2 (- a)"
  by (simp add: pow2_powi power_int_minus field_simps)

lemma round64_pos:
  assumes x: "0 < x" and e: "ilog2 x < 1023"
  shows "round64 x =
           Finite (of_int (roundHalfEven (x / pow2 (max (ilog2 x) (- 1022) - 52)))
                     * pow2 (max (ilog2 x) (- 1022) - 52))"
  using x e by (cases "ilog2 x \<le> - 1022") (simp_all add: round64_def Let_def max_def)

lemma round64_exact:
  assumes x: "0 < x" and e: "ilog2 x < 1023"
    and m: "x / pow2 (max (ilog2 x) (- 1022) - 52) = of_int m"
  shows "round64 x = Finite x"
proof -
  have "round64 x = Finite (of_int m * pow2 (max (ilog2 x) (- 1022) - 52))"
    using round64_pos [OF x e] m by simp
  also have "of_int m * pow2 (max (ilog2 x) (- 1022) - 52) = x"
    unfolding m [symmetric] by simp
  finally show ?thesis .
qed

lemma round64_nat: "k \<le> 2 ^ 53 \<Longrightarrow> round64 (of_nat k) = Finite (of_nat k)"
proof (cases "k = 0")
  case True
  then show ?thesis by (simp add: round64_def)
next
  case False
  assume k: "k \<le> 2 ^ 53"
  let ?x = "of_nat k :: rat"
  from False have x: "0 < ?x" by simp
  have "pow2 0 \<le> ?x" using False by (simp add: pow2_def)
  then have e0: "0 \<le> ilog2 ?x" using x by (intro ilog2_ge)
  have "?x \<le> of_nat (2 ^ 53)" using k unfolding of_nat_le_iff .
  then have x53: "?x \<le> 2 ^ 53" by simp
  then have "?x < pow2 54" by (simp add: pow2_def)
  then have e54: "ilog2 ?x < 54" using x by (intro ilog2_less)
  have mx: "max (ilog2 ?x) (- 1022) = ilog2 ?x" using e0 by simp
  show ?thesis
  proof (cases "ilog2 ?x \<le> 52")
    case True
    have "?x / pow2 (ilog2 ?x - 52) = ?x * pow2 (52 - ilog2 ?x)"
      by (simp add: divide_pow2)
    also have "\<dots> = of_int (int k * 2 ^ nat (52 - ilog2 ?x))"
      using True by (simp add: pow2_nat)
    finally show ?thesis
      using x e54 mx by (intro round64_exact [where m = "int k * 2 ^ nat (52 - ilog2 ?x)"]) simp_all
  next
    case False
    with e54 have e: "ilog2 ?x = 53" by simp
    then have "pow2 53 \<le> ?x" using ilog2_bounds [OF x] by simp
    then have eq: "?x = 2 ^ 53" using x53 by (simp add: pow2_def)
    have "?x / pow2 (ilog2 ?x - 52) = of_int (2 ^ 52)"
      unfolding e by (simp add: eq pow2_def)
    then show ?thesis
      using x e mx by (intro round64_exact [where m = "2 ^ 52"]) simp_all
  qed
qed



lemma round64_minus: "round64 (- x) = fneg (round64 x)"
proof (cases "x = 0")
  case True
  then show ?thesis by (simp add: round64_def)
next
  case False
  define e where "e = max (ilog2 \<bar>x\<bar>) (- 1022)"
  define n where "n = roundHalfEven (\<bar>x\<bar> / pow2 (e - 52))"
  have A: "round64 x =
      (if 1024 \<le> e then (if 0 < x then PosInf else NegInf)
       else if e = 1023 \<and> 2 ^ 53 \<le> n then (if 0 < x then PosInf else NegInf)
       else Finite (if 0 < x then of_int n * pow2 (e - 52) else - (of_int n * pow2 (e - 52))))"
    unfolding round64_def Let_def e_def n_def using False by (simp only: if_False)
  have B: "round64 (- x) =
      (if 1024 \<le> e then (if 0 < - x then PosInf else NegInf)
       else if e = 1023 \<and> 2 ^ 53 \<le> n then (if 0 < - x then PosInf else NegInf)
       else Finite (if 0 < - x then of_int n * pow2 (e - 52) else - (of_int n * pow2 (e - 52))))"
    unfolding round64_def Let_def e_def n_def using False
    by (simp only: abs_minus_cancel neg_equal_0_iff_equal if_False)
  show ?thesis
    unfolding A B using False by (cases "0 < x") auto
qed

text \<open>
  The error of one rounding is at most half the spacing of the doubles: below \<open>2\<^sup>4\<^sup>1\<close> in
  absolute value that is at most \<open>2\<^sup>-\<^sup>1\<^sup>3\<close>, which is all the facts below need.
\<close>

lemma roundHalfEven_err: "\<bar>of_int (roundHalfEven z) - z\<bar> \<le> 1 / 2"
proof -
  have "of_int \<lfloor>z\<rfloor> \<le> z" "z < of_int \<lfloor>z\<rfloor> + 1" by linarith+
  then show ?thesis by (auto simp: roundHalfEven_def Let_def abs_le_iff)
qed

lemma round64_err_pos:
  assumes x: "0 < x" "x < 2 ^ 41"
  shows "\<exists>y. round64 x = Finite y \<and> \<bar>y - x\<bar> \<le> 1 / 2 ^ 13"
proof -
  let ?q = "pow2 (max (ilog2 x) (- 1022) - 52)"
  let ?n = "roundHalfEven (x / ?q)"
  have "x < pow2 41" using x by (simp add: pow2_def)
  then have e: "ilog2 x < 41" using x(1) by (intro ilog2_less)
  then have e1023: "ilog2 x < 1023" by simp
  have r: "round64 x = Finite (of_int ?n * ?q)"
    by (rule round64_pos [OF x(1) e1023])
  have q: "?q \<le> pow2 (- 12)" using e by (intro pow2_mono) simp
  have "of_int ?n * ?q - x = (of_int ?n - x / ?q) * ?q" by (simp add: field_simps)
  then have "\<bar>of_int ?n * ?q - x\<bar> = \<bar>of_int ?n - x / ?q\<bar> * ?q"
    by (simp add: abs_mult less_imp_le)
  also have "\<dots> \<le> 1 / 2 * ?q"
    using roundHalfEven_err [of "x / ?q"] by (intro mult_right_mono) (simp_all add: less_imp_le)
  also have "\<dots> \<le> 1 / 2 * pow2 (- 12)" using q by simp
  also have "\<dots> = 1 / 2 ^ 13" by (simp add: pow2_def)
  finally show ?thesis using r by blast
qed

lemma round64_err:
  assumes x: "\<bar>x\<bar> < 2 ^ 41"
  shows "\<exists>y. round64 x = Finite y \<and> x - 1 / 2 ^ 13 \<le> y \<and> y \<le> x + 1 / 2 ^ 13"
proof -
  consider "x = 0" | "0 < x" | "x < 0" by linarith
  then show ?thesis
  proof cases
    case 1
    then show ?thesis by (simp add: round64_def)
  next
    case 2
    with x have "x < 2 ^ 41" by simp
    from round64_err_pos [OF 2 this] obtain y
      where y: "round64 x = Finite y" "\<bar>y - x\<bar> \<le> 1 / 2 ^ 13" by blast
    from y(2) have "x - 1 / 2 ^ 13 \<le> y \<and> y \<le> x + 1 / 2 ^ 13"
      unfolding abs_le_iff by linarith
    with y(1) show ?thesis by blast
  next
    case 3
    with x have "0 < - x" "- x < 2 ^ 41" by simp_all
    from round64_err_pos [OF this] obtain y
      where y: "round64 (- x) = Finite y" "\<bar>y - (- x)\<bar> \<le> 1 / 2 ^ 13" by blast
    have "round64 x = fneg (round64 (- x))" using round64_minus [of "- x"] by simp
    then have "round64 x = Finite (- y)" using y(1) by simp
    moreover have "x - 1 / 2 ^ 13 \<le> - y \<and> - y \<le> x + 1 / 2 ^ 13"
      using y(2) unfolding abs_le_iff by linarith
    ultimately show ?thesis by blast
  qed
qed

subsection \<open>Comparisons of doubles\<close>

lemma flt_iff: "flt x y \<longleftrightarrow> \<not> (fle y x \<or> x = NotANumber \<or> y = NotANumber)"
  by (cases x; cases y) (auto simp: fle_def)

lemma flt_Finite: "flt (Finite a) (Finite b) \<longleftrightarrow> a < b"
  by simp

lemma fle_Finite: "fle (Finite a) (Finite b) \<longleftrightarrow> a \<le> b"
  by (auto simp: fle_def)

lemma near_Finite:
  "flt (Math_abs (fsub a t)) b \<Longrightarrow> \<exists>x y. a = Finite x \<and> t = Finite y"
  by (cases a; cases t; cases b) (simp_all add: fsub_def)

subsection \<open>Tick on doubles: basic facts\<close>

lemma tick64_fields [simp]:
  "time (tick64 s) = roundedTime64 s" "userNotes (tick64 s) = userNotes s"
  "lastNote (tick64 s) = lastNote s" "paused (tick64 s) = paused s"
  "gameEnd (tick64 s) = didGameEnd64 s" "circles (tick64 s) = updatedCircles64 s"
  "autoNotes (tick64 s) = updatedNotes64 s" "score (tick64 s) = score s"
  by (simp_all add: tick64_def)

lemma circleX64_of_nat:
  "circleX64 (Finite (of_nat k)) ! 0 = [''20%'', ''40%'', ''60%'', ''80%''] ! (k mod 4)"
proof -
  have "k mod 4 = 0 \<or> k mod 4 = 1 \<or> k mod 4 = 2 \<or> k mod 4 = 3" by arith
  moreover have "js_rem (of_nat k) 4 = of_nat (k mod 4)"
    using js_rem_nat [of 4 k] by simp
  ultimately show ?thesis
    by (auto simp: circleX64_def)
qed

lemma map_note_newCircles64: "map note' (newCircles64 s) = newNotes64 s"
  by (auto intro!: nth_equalityI simp: newCircles64_def nth_enumerate_eq)

subsection \<open>Tick: autonomous notes\<close>

text \<open>
  Claim C3. One tick keeps, in order, the autonomous notes whose \<open>end'\<close> is greater than
  the previous time in the comparison of doubles: a note is removed when its end is at or
  before the previous time, and also when its end is \<^verbatim>\<open>NaN\<close> (or the time is). A kept
  note that is unplayed and whose start lies in the half-open window from the previous time
  to the new time becomes a copy with \<open>played_at\<close> set to the previous time; every other
  kept note is returned as it is. So a note that already has a \<open>played_at\<close> keeps it.
\<close>

theorem tick_autoNotes:
  "list_all2
     (\<lambda>n n'. (if played_at n = None \<and> fle (time s) (start n) \<and> flt (start n) (time (tick64 s))
               then \<exists>a. n' = n\<lparr>played_at := Some (time s), nid := a\<rparr>
               else n' = n)
              \<and> (played_at n \<noteq> None \<longrightarrow> played_at n' = played_at n))
     (filter (\<lambda>n. \<not> (fle (end' n) (time s) \<or> end' n = NotANumber \<or> time s = NotANumber))
             (autoNotes s))
     (autoNotes (tick64 s))"
proof -
  have f: "filter (\<lambda>n. \<not> (fle (end' n) (time s) \<or> end' n = NotANumber \<or> time s = NotANumber))
             (autoNotes s) = filter (\<lambda>n. fgt (end' n) (time s)) (autoNotes s)"
    by (rule filter_cong) (auto simp: fgt_def flt_iff [of "time s"])
  show ?thesis
    unfolding f list_all2_conv_all_nth
    by (auto simp: updatedNotes64_def fge_def nth_enumerate_eq)
qed

theorem tick_autoNotes_witness:
  "\<exists>a. autoNotes (tick64 scenarioState64) =
         [scenarioAuto64\<lparr>played_at := Some (Finite (1 / 2)), nid := a\<rparr>]"
proof -
  have f: "filter (\<lambda>n. \<not> (fle (end' n) (time scenarioState64) \<or> end' n = NotANumber
                          \<or> time scenarioState64 = NotANumber))
             (autoNotes scenarioState64) = [scenarioAuto64]"
    by (simp add: scenario64_defs fle_def)
  have c: "played_at scenarioAuto64 = None \<and> fle (time scenarioState64) (start scenarioAuto64)
           \<and> flt (start scenarioAuto64) (time (tick64 scenarioState64))"
    by code_simp
  have t: "time scenarioState64 = Finite (1 / 2)" by (simp add: scenario64_defs)
  from tick_autoNotes [of scenarioState64] show ?thesis
    unfolding f using c by (auto simp: list_all2_Cons1 t)
qed

text \<open>
  The claim as it is worded fails on \<open>nanState\<close>, whose autonomous note is the one that
  the parser builds from \<open>nanFile\<close>: the end of the note is not at or before the time, and
  the tick removes the note.
\<close>

theorem tick_autoNotes_counterexample:
  "parseNotes decimal nanFile =
     Inr [\<lparr>nid = 0, user_played = False, instrument = Some ''violin'', velocity = Num 64,
           pitch = Num 48, start = Num (1 / 2), end' = NaN, played_at = None\<rparr>]
   \<and> autoNotes nanState = [nanAuto] \<and> end' nanAuto = NotANumber
   \<and> \<not> fle (end' nanAuto) (time nanState)
   \<and> autoNotes (tick64 nanState) = []"
  by code_simp

subsection \<open>Tick: spawning tokens\<close>

text \<open>
  Claim C4. After one tick the token sequence is the updated pre-existing tokens followed
  by the new ones. There is one new token, in order, for each user note whose start lies in
  the half-open window whose bounds are the sums, rounded to doubles, of the previous time
  and 3.5 and of the new time and 3.5; a new token sits at the top (\<open>cy = 0\<close>), is rendered
  and not played, and its column is \<open>circleX64\<close> of the pitch, which for a pitch that is a
  natural number is the column numbered pitch mod 4.
\<close>

theorem tick_spawn:
  "\<exists>old new.
     circles (tick64 s) = old @ new
     \<and> list_all2
         (\<lambda>c c'. note' c' = note' c \<and> cx c' = cx c \<and> played c' = played c
                 \<and> (if fle (Finite 350) (cy c) then cy c' = cy c \<and> \<not> rendered c'
                    else cy c' = fadd (cy c) (Finite 1) \<and> rendered c'))
         (filter rendered (circles s)) old
     \<and> map note' new =
         filter (\<lambda>n. fle (fadd (time s) (Finite (7 / 2))) (start n)
                     \<and> flt (start n) (fadd (time (tick64 s)) (Finite (7 / 2))))
                (userNotes s)
     \<and> (\<forall>c \<in> set new. cx c = circleX64 (pitch (note' c)) ! 0 \<and> cy c = Finite 0
                       \<and> rendered c \<and> \<not> played c)
     \<and> (\<forall>k. circleX64 (Finite (of_nat k)) ! 0 = [''20%'', ''40%'', ''60%'', ''80%''] ! (k mod 4))"
proof -
  have 1: "circles (tick64 s) = oldCircles64 s @ newCircles64 s"
    by (simp add: updatedCircles64_def)
  have 2: "list_all2
         (\<lambda>c c'. note' c' = note' c \<and> cx c' = cx c \<and> played c' = played c
                 \<and> (if fle (Finite 350) (cy c) then cy c' = cy c \<and> \<not> rendered c'
                    else cy c' = fadd (cy c) (Finite 1) \<and> rendered c'))
         (filter rendered (circles s)) (oldCircles64 s)"
    by (auto simp: oldCircles64_def list_all2_conv_all_nth nth_enumerate_eq
                   Viewport_LAST_POSITION64_def fge_def
             dest: filter_nth_holds)
  have 3: "map note' (newCircles64 s) =
         filter (\<lambda>n. fle (fadd (time s) (Finite (7 / 2))) (start n)
                     \<and> flt (start n) (fadd (time (tick64 s)) (Finite (7 / 2))))
                (userNotes s)"
  proof -
    have "map note' (newCircles64 s) = newNotes64 s" by (rule map_note_newCircles64)
    also have "\<dots> = filter (\<lambda>n. fle (fadd (time s) (Finite (7 / 2))) (start n)
                     \<and> flt (start n) (fadd (time (tick64 s)) (Finite (7 / 2))))
                (userNotes s)"
      unfolding newNotes64_def by (rule filter_cong) (auto simp: Time_OFFSET64_def fge_def)
    finally show ?thesis .
  qed
  have 4: "\<forall>c \<in> set (newCircles64 s). cx c = circleX64 (pitch (note' c)) ! 0 \<and> cy c = Finite 0
                       \<and> rendered c \<and> \<not> played c"
    by (auto simp: newCircles64_def)
  from 1 2 3 4 circleX64_of_nat show ?thesis by blast
qed

theorem tick_spawn_witness:
  "\<exists>c c'. circles (tick64 scenarioState64) = [c, c'] \<and> note' c = scenarioNote64
      \<and> cy c = Finite 201 \<and> rendered c \<and> note' c' = secondNote64 \<and> cx c' = ''40%''
      \<and> cy c' = Finite 0 \<and> rendered c' \<and> \<not> played c'"
proof -
  have f: "filter rendered (circles scenarioState64) = [scenarioBody64]"
    by (simp add: scenario64_defs)
  have w: "filter (\<lambda>n. fle (fadd (time scenarioState64) (Finite (7 / 2))) (start n)
                      \<and> flt (start n) (fadd (time (tick64 scenarioState64)) (Finite (7 / 2))))
             (userNotes scenarioState64) = [secondNote64]"
    by code_simp
  have lane: "circleX64 (pitch secondNote64) ! 0 = ''40%''"
    using circleX64_of_nat [of 61] by (simp add: scenario64_defs)
  have y: "\<not> fle (Finite 350) (cy scenarioBody64)"
    "fadd (cy scenarioBody64) (Finite 1) = Finite 201"
    by code_simp+
  from tick_spawn [of scenarioState64] obtain old new where
    1: "circles (tick64 scenarioState64) = old @ new"
    and 2: "list_all2
         (\<lambda>c c'. note' c' = note' c \<and> cx c' = cx c \<and> played c' = played c
                 \<and> (if fle (Finite 350) (cy c) then cy c' = cy c \<and> \<not> rendered c'
                    else cy c' = fadd (cy c) (Finite 1) \<and> rendered c'))
         (filter rendered (circles scenarioState64)) old"
    and 3: "map note' new =
         filter (\<lambda>n. fle (fadd (time scenarioState64) (Finite (7 / 2))) (start n)
                     \<and> flt (start n) (fadd (time (tick64 scenarioState64)) (Finite (7 / 2))))
                (userNotes scenarioState64)"
    and 4: "\<forall>c \<in> set new. cx c = circleX64 (pitch (note' c)) ! 0 \<and> cy c = Finite 0
                       \<and> rendered c \<and> \<not> played c"
    by blast
  from 2 obtain c where old: "old = [c]" and c: "note' c = note' scenarioBody64"
      "cy c = Finite 201" "rendered c"
    unfolding f using y by (auto simp: list_all2_Cons1)
  from 3 obtain c' where new: "new = [c']" and c': "note' c' = secondNote64"
    unfolding w by (auto simp: map_eq_Cons_conv)
  from 4 new c' lane have "cx c' = ''40%'' \<and> cy c' = Finite 0 \<and> rendered c' \<and> \<not> played c'"
    by simp
  with 1 old new c c' show ?thesis by (simp add: scenarioBody64_def)
qed

text \<open>
  The claim as it is worded fails in two ways. In decimal arithmetic the window of the
  second tick of a game runs from 0.01 to 0.02 and leaves out a note that starts at 0.02;
  the second tick of \<open>spawnStart\<close> spawns its token. And with the windows taken on the
  exact values of the doubles, the note of \<open>spawnState\<close> lies in the window of the tick,
  which spawns no token.
\<close>

theorem tick_spawn_counterexample:
  "time (tick64 spawnStart) = round64 (- 349 / 100)
   \<and> time (tick64 (tick64 spawnStart)) = round64 (- 348 / 100)
   \<and> start spawnNote = round64 (2 / 100)
   \<and> (- 348 / 100 + 7 / 2 :: rat) \<le> 2 / 100
   \<and> map note' (circles (tick64 (tick64 spawnStart))) = [spawnNote]
   \<and> val (time spawnState) + 7 / 2 \<le> val (start (hd (userNotes spawnState)))
   \<and> val (start (hd (userNotes spawnState))) < val (time (tick64 spawnState)) + 7 / 2
   \<and> circles (tick64 spawnState) = []"
  by code_simp

subsection \<open>The clock and the tokens of the engine on doubles\<close>

text \<open>
  One tick moves a time between -4 and \<open>2\<^sup>3\<^sup>0\<close> seconds forward by 9 to 11 milliseconds,
  and then the spawn window of the tick begins where the window before it ended or later.
\<close>

lemma roundedTime64_bounds:
  assumes t: "time s = Finite t" and lo: "- 4 \<le> t" and hi: "t \<le> 2 ^ 30"
  shows "\<exists>t'. roundedTime64 s = Finite t' \<and> t + 9 / 1000 \<le> t' \<and> t' \<le> t + 11 / 1000"
proof -
  from round64_err [of "1 / 100"] obtain c
    where c: "round64 (1 / 100) = Finite c" "1 / 100 - 1 / 2 ^ 13 \<le> c" "c \<le> 1 / 100 + 1 / 2 ^ 13"
    by auto
  have "\<bar>t + c\<bar> < 2 ^ 41" using lo hi c(2,3) by (simp add: abs_less_iff)
  from round64_err [OF this] obtain a
    where a: "round64 (t + c) = Finite a" "t + c - 1 / 2 ^ 13 \<le> a" "a \<le> t + c + 1 / 2 ^ 13"
    by auto
  have "\<bar>a * 1000\<bar> < 2 ^ 41" using lo hi c(2,3) a(2,3) by (simp add: abs_less_iff)
  from round64_err [OF this] obtain b
    where b: "round64 (a * 1000) = Finite b" "a * 1000 - 1 / 2 ^ 13 \<le> b" "b \<le> a * 1000 + 1 / 2 ^ 13"
    by auto
  have r: "b - 1 / 2 < Math_round b" "Math_round b \<le> b + 1 / 2"
    unfolding Math_round_def by linarith+
  have "\<bar>Math_round b / 1000\<bar> < 2 ^ 41"
    using lo hi c(2,3) a(2,3) b(2,3) r by (simp add: abs_less_iff)
  from round64_err [OF this] obtain t'
    where t': "round64 (Math_round b / 1000) = Finite t'"
      "Math_round b / 1000 - 1 / 2 ^ 13 \<le> t'" "t' \<le> Math_round b / 1000 + 1 / 2 ^ 13"
    by auto
  have "roundedTime64 s = Finite t'"
    by (simp add: roundedTime64_def updatedTime64_def Constants_TICK_RATE_MS64_def t c(1) a(1) b(1) t'(1))
  moreover have "t + 9 / 1000 \<le> t'" using c(2) a(2) b(2) r(1) t'(2) by simp
  moreover have "t' \<le> t + 11 / 1000" using c(3) a(3) b(3) r(2) t'(3) by simp
  ultimately show ?thesis by blast
qed

lemma windows_ordered:
  assumes t: "time s = Finite t" and lo: "- 4 \<le> t" and hi: "t \<le> 2 ^ 30"
  shows "fle (fadd (time s) Time_OFFSET64) (fadd (roundedTime64 s) Time_OFFSET64)"
proof -
  from roundedTime64_bounds [OF t lo hi] obtain t'
    where t': "roundedTime64 s = Finite t'" "t + 9 / 1000 \<le> t'" "t' \<le> t + 11 / 1000" by blast
  have "\<bar>t + 7 / 2\<bar> < 2 ^ 41" using lo hi by (simp add: abs_less_iff)
  from round64_err [OF this] obtain u
    where u: "round64 (t + 7 / 2) = Finite u" "u \<le> t + 7 / 2 + 1 / 2 ^ 13" by auto
  have "\<bar>t' + 7 / 2\<bar> < 2 ^ 41" using lo hi t'(2,3) by (simp add: abs_less_iff)
  from round64_err [OF this] obtain u'
    where u': "round64 (t' + 7 / 2) = Finite u'" "t' + 7 / 2 - 1 / 2 ^ 13 \<le> u'" by auto
  have "u \<le> u'" using u(2) u'(2) t'(2) by simp
  then show ?thesis by (simp add: t t'(1) Time_OFFSET64_def u(1) u'(1) fle_Finite)
qed

lemma flt_fle_trans: "flt a b \<Longrightarrow> fle b c \<Longrightarrow> flt a c"
  by (cases a; cases b; cases c) (auto simp: fle_def)

lemma flt_fle_False: "flt a b \<Longrightarrow> fle b a \<Longrightarrow> False"
  by (cases a; cases b) (auto simp: fle_def)

lemma updatedCircles64_split: "updatedCircles64 s = oldCircles64 s @ newCircles64 s"
  by (simp add: updatedCircles64_def)

lemma map_note_oldCircles64:
  "map note' (oldCircles64 s) = map note' (filter rendered (circles s))"
  by (auto intro!: nth_equalityI simp: oldCircles64_def nth_enumerate_eq)

lemma map_bid_oldCircles64:
  "map bid (oldCircles64 s) =
     [heapTop s + length (autoNotes s) + length (userNotes s) ..<
      heapTop s + length (autoNotes s) + length (userNotes s) + length (filter rendered (circles s))]"
  by (auto intro!: nth_equalityI simp: oldCircles64_def nth_enumerate_eq)

lemma map_bid_newCircles64:
  "map bid (newCircles64 s) =
     [heapTop s + length (autoNotes s) ..< heapTop s + length (autoNotes s) + length (newNotes64 s)]"
  by (auto intro!: nth_equalityI simp: newCircles64_def nth_enumerate_eq)

lemma length_newNotes64: "length (newNotes64 s) \<le> length (userNotes s)"
  by (simp add: newNotes64_def)

lemma tokensInv64_tick:
  assumes "tokensInv64 s"
    and ord: "fle (fadd (time s) Time_OFFSET64) (fadd (roundedTime64 s) Time_OFFSET64)"
  shows "tokensInv64 (tick64 s)"
proof -
  from assms have du: "distinct (map nid (userNotes s))"
    and dc: "distinct (map (nid \<circ> note') (circles s))"
    and mem: "\<forall>c \<in> set (circles s). note' c \<in> set (userNotes s)
                \<and> flt (start (note' c)) (fadd (time s) Time_OFFSET64)"
    by (simp_all add: tokensInv64_def)
  have inj: "inj_on nid (set (userNotes s))" using du by (simp add: distinct_map)
  have old_notes: "set (map note' (oldCircles64 s)) \<subseteq> note' ` set (circles s)"
    unfolding map_note_oldCircles64 by auto
  have new_notes: "set (map note' (newCircles64 s)) = set (newNotes64 s)"
    by (simp add: map_note_newCircles64)
  have d_old: "distinct (map (nid \<circ> note') (oldCircles64 s))"
  proof -
    have "map (nid \<circ> note') (oldCircles64 s) = map nid (map note' (oldCircles64 s))" by simp
    also have "\<dots> = map (nid \<circ> note') (filter rendered (circles s))"
      by (simp add: map_note_oldCircles64)
    finally show ?thesis using dc by (simp add: distinct_map_filter)
  qed
  have d_new: "distinct (map (nid \<circ> note') (newCircles64 s))"
  proof -
    have "map (nid \<circ> note') (newCircles64 s) = map nid (map note' (newCircles64 s))" by simp
    also have "\<dots> = map nid (newNotes64 s)"
      by (simp add: map_note_newCircles64)
    finally show ?thesis using du by (simp add: newNotes64_def distinct_map_filter)
  qed
  have disj: "set (map (nid \<circ> note') (oldCircles64 s)) \<inter> set (map (nid \<circ> note') (newCircles64 s)) = {}"
  proof (rule ccontr)
    assume "\<not> ?thesis"
    then obtain c c' where c: "c \<in> set (oldCircles64 s)" and c': "c' \<in> set (newCircles64 s)"
      and eq: "nid (note' c) = nid (note' c')"
      by auto
    from c old_notes obtain c0 where c0: "c0 \<in> set (circles s)" and n0: "note' c = note' c0"
      by auto
    from c' new_notes have n': "note' c' \<in> set (newNotes64 s)" by auto
    then have u': "note' c' \<in> set (userNotes s)"
      and late: "fle (fadd (time s) Time_OFFSET64) (start (note' c'))"
      by (simp_all add: newNotes64_def fge_def)
    from c0 mem have u: "note' c0 \<in> set (userNotes s)"
      and early: "flt (start (note' c0)) (fadd (time s) Time_OFFSET64)"
      by auto
    from inj u u' eq n0 have "note' c0 = note' c'" by (auto dest: inj_onD)
    with early late show False using flt_fle_False by auto
  qed
  have 2: "distinct (map (nid \<circ> note') (circles (tick64 s)))"
    using d_old d_new disj by (simp add: updatedCircles64_split del: map_map)
  have 3: "\<forall>c \<in> set (circles (tick64 s)). note' c \<in> set (userNotes (tick64 s))
            \<and> flt (start (note' c)) (fadd (time (tick64 s)) Time_OFFSET64)"
  proof
    fix c assume "c \<in> set (circles (tick64 s))"
    then consider "c \<in> set (oldCircles64 s)" | "c \<in> set (newCircles64 s)"
      by (auto simp: updatedCircles64_split)
    then show "note' c \<in> set (userNotes (tick64 s))
            \<and> flt (start (note' c)) (fadd (time (tick64 s)) Time_OFFSET64)"
    proof cases
      case 1
      with old_notes obtain c0 where "c0 \<in> set (circles s)" "note' c = note' c0" by auto
      with mem flt_fle_trans [OF _ ord] show ?thesis by auto
    next
      case 2
      with new_notes have "note' c \<in> set (newNotes64 s)" by auto
      then show ?thesis by (simp add: newNotes64_def)
    qed
  qed
  have 4: "distinct (map bid (circles (tick64 s)))"
    using length_newNotes64 [of s]
    by (auto simp: updatedCircles64_split map_bid_oldCircles64 map_bid_newCircles64)
  have 5: "\<forall>c \<in> set (circles (tick64 s)). bid c < heapTop (tick64 s)"
  proof
    fix c assume "c \<in> set (circles (tick64 s))"
    then have "bid c \<in> set (map bid (oldCircles64 s)) \<union> set (map bid (newCircles64 s))"
      by (auto simp: updatedCircles64_split)
    then have "bid c < heapTop s + length (autoNotes s) + length (userNotes s)
                         + length (filter rendered (circles s))"
      using length_newNotes64 [of s]
      by (auto simp: map_bid_oldCircles64 map_bid_newCircles64)
    moreover have "length (filter rendered (circles s)) \<le> length (circles s)" by simp
    moreover have "heapTop (tick64 s) = heapTop s + length (autoNotes s) + length (userNotes s)
                         + length (circles s)"
      by (simp add: tick64_def)
    ultimately show "bid c < heapTop (tick64 s)" by linarith
  qed
  from du 2 3 4 5 show ?thesis by (simp add: tokensInv64_def)
qed

lemma hitCircles64_nth:
  "j < length (circles s) \<Longrightarrow>
   hitCircles64 s action ! j = circles s ! j
   \<or> hitCircles64 s action ! j = (circles s ! j)\<lparr>rendered := False, played := True, bid := heapTop s + j\<rparr>"
  by (simp add: hitCircles64_def nth_enumerate_eq)

lemma map_note_hitCircles64: "map note' (hitCircles64 s action) = map note' (circles s)"
  by (auto intro!: nth_equalityI simp: hitCircles64_def nth_enumerate_eq)

lemma tokensInv64_hit:
  assumes "tokensInv64 s"
  shows "tokensInv64 (s\<lparr>circles := hitCircles64 s action,
                        score := fadd (score s) (addedPoints64 s action),
                        heapTop := heapTop s + length (circles s)\<rparr>)"
proof -
  from assms have du: "distinct (map nid (userNotes s))"
    and dc: "distinct (map (nid \<circ> note') (circles s))"
    and mem: "\<forall>c \<in> set (circles s). note' c \<in> set (userNotes s)
                \<and> flt (start (note' c)) (fadd (time s) Time_OFFSET64)"
    and db: "distinct (map bid (circles s))"
    and lt: "\<forall>c \<in> set (circles s). bid c < heapTop s"
    by (simp_all add: tokensInv64_def)
  have len: "length (hitCircles64 s action) = length (circles s)" by (simp add: hitCircles64_def)
  have "map (nid \<circ> note') (hitCircles64 s action) = map nid (map note' (hitCircles64 s action))"
    by simp
  then have 2: "distinct (map (nid \<circ> note') (hitCircles64 s action))"
    using dc by (simp add: map_note_hitCircles64)
  have 3: "\<forall>c \<in> set (hitCircles64 s action). note' c \<in> set (userNotes s)
             \<and> flt (start (note' c)) (fadd (time s) Time_OFFSET64)"
  proof
    fix c assume "c \<in> set (hitCircles64 s action)"
    then have "note' c \<in> set (map note' (hitCircles64 s action))" by simp
    then have "note' c \<in> note' ` set (circles s)" by (simp add: map_note_hitCircles64)
    with mem show "note' c \<in> set (userNotes s)
             \<and> flt (start (note' c)) (fadd (time s) Time_OFFSET64)" by auto
  qed
  have bound: "j < length (circles s) \<Longrightarrow>
      bid (hitCircles64 s action ! j) = bid (circles s ! j) \<and> bid (circles s ! j) < heapTop s
      \<or> bid (hitCircles64 s action ! j) = heapTop s + j" for j
    using hitCircles64_nth [of j s action] lt by auto
  have 4: "distinct (map bid (hitCircles64 s action))"
    unfolding distinct_conv_nth
  proof (intro allI impI)
    fix j k assume "j < length (map bid (hitCircles64 s action))"
      "k < length (map bid (hitCircles64 s action))" "j \<noteq> k"
    then have j: "j < length (circles s)" and k: "k < length (circles s)" and jk: "j \<noteq> k"
      by (simp_all add: len)
    have "bid (circles s ! j) \<noteq> bid (circles s ! k)"
      using db j k jk nth_eq_iff_index_eq [of "map bid (circles s)" j k] by simp
    then have "bid (hitCircles64 s action ! j) \<noteq> bid (hitCircles64 s action ! k)"
      using bound [OF j] bound [OF k] jk by auto
    then show "map bid (hitCircles64 s action) ! j \<noteq> map bid (hitCircles64 s action) ! k"
      using j k by (simp add: len)
  qed
  have 5: "\<forall>c \<in> set (hitCircles64 s action). bid c < heapTop s + length (circles s)"
  proof
    fix c assume "c \<in> set (hitCircles64 s action)"
    then obtain j where j: "j < length (circles s)" and c: "c = hitCircles64 s action ! j"
      by (auto simp: in_set_conv_nth len)
    show "bid c < heapTop s + length (circles s)"
      using bound [OF j] j c by auto
  qed
  from du 2 3 4 5 show ?thesis by (simp add: tokensInv64_def)
qed

text \<open>
  The engine on doubles, started by \<^verbatim>\<open>main\<close> with user notes that are distinct objects,
  keeps its tokens distinct objects bound to distinct notes for at least a thousand
  million actions, which is more than a hundred days of ticks: so long the time stays
  below \<open>2\<^sup>3\<^sup>0\<close> seconds.
\<close>

lemma tokensInv64_step:
  assumes inv: "tokensInv64 s" and t: "time s = Finite t" and lo: "- 7 / 2 \<le> t"
    and hi: "t \<le> - 7 / 2 + 11 / 1000 * of_nat k" and k: "k \<le> 10 ^ 9"
  shows "tokensInv64 (reducer64 s action)
       \<and> (\<exists>t'. time (reducer64 s action) = Finite t' \<and> - 7 / 2 \<le> t'
              \<and> t' \<le> - 7 / 2 + 11 / 1000 * of_nat (Suc k))"
proof -
  have "(of_nat k :: rat) \<le> of_nat (10 ^ 9)" using k unfolding of_nat_le_iff .
  then have k': "(of_nat k :: rat) \<le> 10 ^ 9" by simp
  have lo4: "- 4 \<le> t" using lo by simp
  have hi30: "t \<le> 2 ^ 30" using hi k' by simp
  have suc: "11 / 1000 * of_nat (Suc k) = 11 / 1000 * of_nat k + (11 / 1000 :: rat)"
    by (simp add: algebra_simps)
  have same: "\<exists>t'. time s = Finite t' \<and> - 7 / 2 \<le> t' \<and> t' \<le> - 7 / 2 + 11 / 1000 * of_nat (Suc k)"
    using t lo hi unfolding suc by simp
  from roundedTime64_bounds [OF t lo4 hi30] obtain t'
    where t': "roundedTime64 s = Finite t'" "t + 9 / 1000 \<le> t'" "t' \<le> t + 11 / 1000" by blast
  have next_time: "\<exists>t'. time (tick64 s) = Finite t' \<and> - 7 / 2 \<le> t'
                     \<and> t' \<le> - 7 / 2 + 11 / 1000 * of_nat (Suc k)"
    using t' lo hi unfolding suc by simp
  have tick: "tokensInv64 (tick64 s)"
    by (rule tokensInv64_tick [OF inv windows_ordered [OF t lo4 hi30]])
  have esc: "tokensInv64 (s\<lparr>paused := \<not> paused s\<rparr>)" using inv by (simp add: tokensInv64_def)
  show ?thesis
    using inv tick esc tokensInv64_hit [OF inv] same next_time
    by (simp add: reducer64_def)
qed

lemma tokensInv64_run:
  assumes d: "distinct (map nid UserNotes)" and n: "length acts \<le> 10 ^ 9"
  shows "tokensInv64 (foldl reducer64 (initialState64 Notes UserNotes AutoNotes LastNote a0) acts)
       \<and> (\<exists>t. time (foldl reducer64 (initialState64 Notes UserNotes AutoNotes LastNote a0) acts)
                = Finite t
              \<and> - 7 / 2 \<le> t \<and> t \<le> - 7 / 2 + 11 / 1000 * of_nat (length acts))"
  using n
proof (induction acts rule: rev_induct)
  case Nil
  show ?case using d by (simp add: tokensInv64_def initialState64_def Time_OFFSET64_def)
next
  case (snoc a acts)
  let ?s = "foldl reducer64 (initialState64 Notes UserNotes AutoNotes LastNote a0) acts"
  from snoc.prems have len: "length acts \<le> 10 ^ 9" by simp
  from snoc.IH [OF len] obtain t where inv: "tokensInv64 ?s" and t: "time ?s = Finite t"
    and lo: "- 7 / 2 \<le> t" and hi: "t \<le> - 7 / 2 + 11 / 1000 * of_nat (length acts)"
    by blast
  from tokensInv64_step [OF inv t lo hi len, of a] show ?case by simp
qed

text \<open>
  The pause and the frame of a lane key do not depend on the arithmetic: they hold on
  doubles as they do in the exact engine.
\<close>

lemma reducer64_paused:
  "paused s \<Longrightarrow> action \<noteq> ''Esc'' \<Longrightarrow> reducer64 s action = s"
  by (simp add: reducer64_def)

lemma reducer64_frame:
  "\<not> paused s \<Longrightarrow> laneKey action \<Longrightarrow>
   time (reducer64 s action) = time s \<and> gameEnd (reducer64 s action) = gameEnd s
   \<and> paused (reducer64 s action) = paused s \<and> autoNotes (reducer64 s action) = autoNotes s
   \<and> userNotes (reducer64 s action) = userNotes s \<and> lastNote (reducer64 s action) = lastNote s
   \<and> notes' (reducer64 s action) = notes' s \<and> noteIndex (reducer64 s action) = noteIndex s"
  by (auto simp: reducer64_def laneKey_def)

subsection \<open>Hit detection and scoring\<close>

lemma foldl_pick_split:
  fixes key :: "'a \<Rightarrow> rat"
  assumes f: "\<And>a b. a \<in> set (x # xs) \<Longrightarrow> b \<in> set (x # xs) \<Longrightarrow>
                f a b = (if key b < key a then b else a)"
  shows "\<exists>pre post. x # xs = pre @ foldl f x xs # post
     \<and> (\<forall>c \<in> set pre. key (foldl f x xs) < key c)
     \<and> (\<forall>c \<in> set post. key (foldl f x xs) \<le> key c)"
  using f
proof (induction xs rule: rev_induct)
  case Nil
  have "[x] = [] @ foldl f x [] # []" by simp
  then show ?case by force
next
  case (snoc y xs)
  let ?m = "foldl f x xs"
  have "f a b = (if key b < key a then b else a)"
    if "a \<in> set (x # xs)" "b \<in> set (x # xs)" for a b
    using that by (intro snoc.prems) auto
  from snoc.IH [OF this] obtain pre post where split: "x # xs = pre @ ?m # post"
    and pre: "\<forall>c \<in> set pre. key ?m < key c" and post: "\<forall>c \<in> set post. key ?m \<le> key c"
    by blast
  have m: "?m \<in> set (x # xs)" by (subst split) simp
  have fm: "f ?m y = (if key y < key ?m then y else ?m)"
    using m by (intro snoc.prems) auto
  show ?case
  proof (cases "key y < key ?m")
    case True
    then have r: "foldl f x (xs @ [y]) = y" using fm by simp
    have all: "\<forall>c \<in> set (x # xs). key y < key c"
    proof
      fix c assume "c \<in> set (x # xs)"
      then have "c \<in> set pre \<or> c = ?m \<or> c \<in> set post"
        by (subst (asm) split) auto
      then have "key ?m \<le> key c" using pre post by auto
      with True show "key y < key c" by simp
    qed
    have "x # xs @ [y] = (x # xs) @ y # []" by simp
    with all show ?thesis unfolding r by (metis empty_iff list.set(1))
  next
    case False
    then have r: "foldl f x (xs @ [y]) = ?m" using fm by simp
    have "x # xs @ [y] = pre @ ?m # (post @ [y])"
      using split by simp
    moreover have "\<forall>c \<in> set (post @ [y]). key ?m \<le> key c"
      using False post by auto
    ultimately show ?thesis unfolding r using pre by blast
  qed
qed

lemma eligibleCircles64_iff:
  "c \<in> set (eligibleCircles64 s action) \<longleftrightarrow>
     c \<in> set (circles s) \<and> keyToColumn action = Some (cx c) \<and> rendered c \<and> \<not> played c
     \<and> flt (Math_abs (fsub (start (note' c)) (time s))) (round64 (7 / 10))"
  by (auto simp: eligibleCircles64_def)

lemma eligibleCircles64_Finite:
  "c \<in> set (eligibleCircles64 s action) \<Longrightarrow> \<exists>x. start (note' c) = Finite x"
  using near_Finite [of "start (note' c)" "time s" "round64 (7 / 10)"]
  by (auto simp: eligibleCircles64_iff)

lemma prioritizedCircle64_None:
  "prioritizedCircle64 s action = None \<longleftrightarrow> eligibleCircles64 s action = []"
  by (simp add: prioritizedCircle64_def split: list.splits)

lemma prioritizedCircle64_Some:
  assumes "prioritizedCircle64 s action = Some p"
  shows "\<exists>pre post. eligibleCircles64 s action = pre @ p # post
           \<and> (\<forall>c \<in> set pre. flt (start (note' p)) (start (note' c)))
           \<and> (\<forall>c \<in> set post. fle (start (note' p)) (start (note' c)))"
proof -
  let ?f = "\<lambda>acc other. if flt (start (note' other)) (start (note' acc)) then other else acc"
  let ?key = "\<lambda>c. val (start (note' c))"
  from assms obtain e es where el: "eligibleCircles64 s action = e # es"
    and p: "p = foldl ?f e es"
    by (auto simp: prioritizedCircle64_def split: list.splits)
  have fin: "\<exists>x. start (note' c) = Finite x" if "c \<in> set (e # es)" for c
    using eligibleCircles64_Finite [of c s action] that unfolding el .
  have f: "?f a b = (if ?key b < ?key a then b else a)"
    if "a \<in> set (e # es)" "b \<in> set (e # es)" for a b
  proof -
    from fin [OF that(1)] fin [OF that(2)] obtain x y
      where "start (note' a) = Finite x" "start (note' b) = Finite y" by blast
    then show ?thesis by simp
  qed
  from foldl_pick_split [of e es ?f ?key, OF f] obtain pre post
    where split: "e # es = pre @ p # post"
      and pre: "\<forall>c \<in> set pre. ?key p < ?key c" and post: "\<forall>c \<in> set post. ?key p \<le> ?key c"
    unfolding p by blast
  have "p \<in> set (e # es)" by (subst split) simp
  from fin [OF this] obtain xp where xp: "start (note' p) = Finite xp" by blast
  have 1: "\<forall>c \<in> set pre. flt (start (note' p)) (start (note' c))"
  proof
    fix c assume c: "c \<in> set pre"
    then have "c \<in> set (e # es)" by (subst split) simp
    from fin [OF this] obtain xc where "start (note' c) = Finite xc" by blast
    with pre c xp show "flt (start (note' p)) (start (note' c))" by auto
  qed
  have 2: "\<forall>c \<in> set post. fle (start (note' p)) (start (note' c))"
  proof
    fix c assume c: "c \<in> set post"
    then have "c \<in> set (e # es)" by (subst split) simp
    from fin [OF this] obtain xc where "start (note' c) = Finite xc" by blast
    with post c xp show "fle (start (note' p)) (start (note' c))" by (auto simp: fle_Finite)
  qed
  from split 1 2 show ?thesis unfolding el by blast
qed

lemma prioritizedCircle64_eligible:
  "prioritizedCircle64 s action = Some p \<Longrightarrow> p \<in> set (eligibleCircles64 s action)"
  using prioritizedCircle64_Some by fastforce

lemma hitCircles64_None:
  "prioritizedCircle64 s action = None \<Longrightarrow> hitCircles64 s action = circles s"
  by (auto intro!: nth_equalityI simp: hitCircles64_def nth_enumerate_eq)

lemma hitCircles64_Some:
  assumes d: "distinct (map bid (circles s))" and i: "i < length (circles s)"
    and p: "prioritizedCircle64 s action = Some (circles s ! i)"
  shows "hitCircles64 s action =
           (circles s)[i := (circles s ! i)\<lparr>rendered := False, played := True, bid := heapTop s + i\<rparr>]"
proof (rule nth_equalityI)
  show "length (hitCircles64 s action) = length ((circles s)[i := (circles s ! i)\<lparr>rendered := False, played := True, bid := heapTop s + i\<rparr>])"
    by (simp add: hitCircles64_def)
next
  fix j assume "j < length (hitCircles64 s action)"
  then have j: "j < length (circles s)" by (simp add: hitCircles64_def)
  have "bid (circles s ! j) = bid (circles s ! i) \<longleftrightarrow> j = i"
    using d i j nth_eq_iff_index_eq [of "map bid (circles s)" j i] by simp
  then show "hitCircles64 s action ! j = (circles s)[i := (circles s ! i)\<lparr>rendered := False, played := True, bid := heapTop s + i\<rparr>] ! j"
    using i j p by (simp add: hitCircles64_def nth_enumerate_eq nth_list_update)
qed

lemma reducer64_lane:
  "\<not> paused s \<Longrightarrow> laneKey action \<Longrightarrow>
   reducer64 s action =
     s\<lparr>circles := hitCircles64 s action, score := fadd (score s) (addedPoints64 s action),
       heapTop := heapTop s + length (circles s)\<rparr>"
  by (auto simp: reducer64_def laneKey_def)

lemma eligible_after_hit:
  assumes np: "\<not> paused s" and lk: "laneKey action"
    and d: "distinct (map bid (circles s))"
    and i: "i < length (circles s)"
    and p: "prioritizedCircle64 s action = Some (circles s ! i)"
    and c: "c \<in> set (eligibleCircles64 (reducer64 s action) action)"
  shows "\<exists>j. j < length (circles s) \<and> j \<noteq> i \<and> c = circles s ! j"
proof -
  let ?p' = "(circles s ! i)\<lparr>rendered := False, played := True, bid := heapTop s + i\<rparr>"
  have cs: "circles (reducer64 s action) = (circles s)[i := ?p']"
    using hitCircles64_Some [OF d i p] reducer64_lane [OF np lk] by simp
  from c have "c \<in> set ((circles s)[i := ?p'])" and r: "rendered c"
    by (simp_all add: eligibleCircles64_iff cs)
  then obtain j where j: "j < length (circles s)" and cj: "(circles s)[i := ?p'] ! j = c"
    by (auto simp: in_set_conv_nth)
  have "j \<noteq> i" using r cj i by auto
  then have "c = circles s ! j" using cj by simp
  with j \<open>j \<noteq> i\<close> show ?thesis by blast
qed

text \<open>
  Claim C1. The four lane keys select the columns 20%, 40%, 60% and 80%. Take an unpaused
  state whose tokens are distinct objects, as they are in every state that satisfies
  \<open>tokensInv64\<close>. A lane key finds as candidates, in the order of
  the token sequence, the tokens in the key's column that are rendered, not played, and
  whose note starts less than 0.7 away from the current time, where the distance is the
  difference of the two doubles rounded to a double and 0.7 is the double nearest to 0.7.
  With no candidate the tokens are unchanged. Otherwise the candidate list splits around
  the chosen token \<open>p\<close>: every candidate before it starts strictly later and every candidate
  after it starts no earlier, so \<open>p\<close> is the first of the earliest; the new token sequence
  is the old one with the single position of \<open>p\<close> replaced by \<open>p\<close> marked played and not
  rendered; and a candidate of the same key on the new state is an unchanged token from
  another position, which is bound to another note when the tokens are bound to distinct
  notes.
\<close>

theorem lane_hit:
  assumes np: "\<not> paused s" and lk: "laneKey action"
    and d: "distinct (map bid (circles s))"
  shows "keyToColumn ''H'' = Some ''20%'' \<and> keyToColumn ''J'' = Some ''40%''
       \<and> keyToColumn ''K'' = Some ''60%'' \<and> keyToColumn ''L'' = Some ''80%''
       \<and> eligibleCircles64 s action =
           filter (\<lambda>c. keyToColumn action = Some (cx c) \<and> rendered c \<and> \<not> played c
                       \<and> flt (Math_abs (fsub (start (note' c)) (time s))) (round64 (7 / 10)))
                  (circles s)
       \<and> (eligibleCircles64 s action = [] \<longrightarrow> circles (reducer64 s action) = circles s)
       \<and> (eligibleCircles64 s action \<noteq> [] \<longrightarrow>
            (\<exists>pre p post i.
                eligibleCircles64 s action = pre @ p # post
              \<and> (\<forall>c \<in> set pre. flt (start (note' p)) (start (note' c)))
              \<and> (\<forall>c \<in> set post. fle (start (note' p)) (start (note' c)))
              \<and> i < length (circles s) \<and> circles s ! i = p
              \<and> circles (reducer64 s action) =
                  (circles s)[i := p\<lparr>rendered := False, played := True, bid := heapTop s + i\<rparr>]
              \<and> (\<forall>c \<in> set (eligibleCircles64 (reducer64 s action) action).
                    (\<exists>j. j < length (circles s) \<and> j \<noteq> i \<and> c = circles s ! j)
                    \<and> (distinct (map (nid \<circ> note') (circles s)) \<longrightarrow>
                         nid (note' c) \<noteq> nid (note' p)))))"
proof (intro conjI impI)
  show "keyToColumn ''H'' = Some ''20%''" "keyToColumn ''J'' = Some ''40%''"
    "keyToColumn ''K'' = Some ''60%''" "keyToColumn ''L'' = Some ''80%''"
    by (simp_all add: keyToColumn_def)
next
  show "eligibleCircles64 s action =
           filter (\<lambda>c. keyToColumn action = Some (cx c) \<and> rendered c \<and> \<not> played c
                       \<and> flt (Math_abs (fsub (start (note' c)) (time s))) (round64 (7 / 10)))
                  (circles s)"
    unfolding eligibleCircles64_def by (rule filter_cong) auto
next
  assume "eligibleCircles64 s action = []"
  then have "prioritizedCircle64 s action = None" by (simp add: prioritizedCircle64_None)
  then show "circles (reducer64 s action) = circles s"
    using reducer64_lane [OF np lk] by (simp add: hitCircles64_None)
next
  assume "eligibleCircles64 s action \<noteq> []"
  then obtain p where p: "prioritizedCircle64 s action = Some p"
    using prioritizedCircle64_None [of s action] by (cases "prioritizedCircle64 s action") auto
  from prioritizedCircle64_Some [OF p] obtain pre post
    where split: "eligibleCircles64 s action = pre @ p # post"
      and pre: "\<forall>c \<in> set pre. flt (start (note' p)) (start (note' c))"
      and post: "\<forall>c \<in> set post. fle (start (note' p)) (start (note' c))"
    by blast
  have "p \<in> set (circles s)"
    using prioritizedCircle64_eligible [OF p] by (simp add: eligibleCircles64_iff)
  then obtain i where i: "i < length (circles s)" and pi: "circles s ! i = p"
    by (auto simp: in_set_conv_nth)
  have p': "prioritizedCircle64 s action = Some (circles s ! i)" using p pi by simp
  have upd: "circles (reducer64 s action) =
      (circles s)[i := p\<lparr>rendered := False, played := True, bid := heapTop s + i\<rparr>]"
    using hitCircles64_Some [OF d i p'] reducer64_lane [OF np lk] pi by simp
  have again: "\<forall>c \<in> set (eligibleCircles64 (reducer64 s action) action).
                    (\<exists>j. j < length (circles s) \<and> j \<noteq> i \<and> c = circles s ! j)
                    \<and> (distinct (map (nid \<circ> note') (circles s)) \<longrightarrow>
                         nid (note' c) \<noteq> nid (note' p))"
  proof
    fix c assume "c \<in> set (eligibleCircles64 (reducer64 s action) action)"
    from eligible_after_hit [OF np lk d i p' this] obtain j
      where j: "j < length (circles s)" "j \<noteq> i" "c = circles s ! j" by blast
    have "nid (note' c) \<noteq> nid (note' p)" if dn: "distinct (map (nid \<circ> note') (circles s))"
    proof -
      have "map (nid \<circ> note') (circles s) ! j \<noteq> map (nid \<circ> note') (circles s) ! i"
        using dn i j by (simp add: nth_eq_iff_index_eq del: nth_map)
      then show ?thesis using i j pi by simp
    qed
    with j show "(\<exists>j. j < length (circles s) \<and> j \<noteq> i \<and> c = circles s ! j)
                    \<and> (distinct (map (nid \<circ> note') (circles s)) \<longrightarrow>
                         nid (note' c) \<noteq> nid (note' p))"
      by blast
  qed
  from split pre post i pi upd again
  show "\<exists>pre p post i.
                eligibleCircles64 s action = pre @ p # post
              \<and> (\<forall>c \<in> set pre. flt (start (note' p)) (start (note' c)))
              \<and> (\<forall>c \<in> set post. fle (start (note' p)) (start (note' c)))
              \<and> i < length (circles s) \<and> circles s ! i = p
              \<and> circles (reducer64 s action) =
                  (circles s)[i := p\<lparr>rendered := False, played := True, bid := heapTop s + i\<rparr>]
              \<and> (\<forall>c \<in> set (eligibleCircles64 (reducer64 s action) action).
                    (\<exists>j. j < length (circles s) \<and> j \<noteq> i \<and> c = circles s ! j)
                    \<and> (distinct (map (nid \<circ> note') (circles s)) \<longrightarrow>
                         nid (note' c) \<noteq> nid (note' p)))"
    by blast
qed

theorem lane_hit_witness:
  "\<not> paused chordState \<and> laneKey ''H'' \<and> distinct (map bid (circles chordState))
   \<and> distinct (map (nid \<circ> note') (circles chordState))
   \<and> eligibleCircles64 chordState ''H'' = take 3 (circles chordState)
   \<and> (\<exists>i < length (circles chordState). \<exists>p.
         circles chordState ! i = p
       \<and> circles (reducer64 chordState ''H'') =
           (circles chordState)[i := p\<lparr>rendered := False, played := True, bid := 14 + i\<rparr>]
       \<and> list_all (\<lambda>c. nid (note' c) \<noteq> nid (note' p)) (eligibleCircles64 (reducer64 chordState ''H'') ''H''))"
proof -
  have h1: "\<not> paused chordState" by (simp add: chordState_def scenario64_defs)
  have h2: "laneKey ''H''" by (simp add: laneKey_def)
  have h3: "distinct (map bid (circles chordState))" by (simp add: chordState_def scenario64_defs)
  have h4: "distinct (map (nid \<circ> note') (circles chordState))"
    by (simp add: chordState_def scenario64_defs)
  have el: "eligibleCircles64 chordState ''H'' = take 3 (circles chordState)"
    by code_simp
  have ne: "eligibleCircles64 chordState ''H'' \<noteq> []"
    unfolding el by (simp add: chordState_def)
  have top: "heapTop chordState = 14" by (simp add: chordState_def)
  from lane_hit [OF h1 h2 h3] ne h4 obtain p i
    where "i < length (circles chordState)" "circles chordState ! i = p"
      "circles (reducer64 chordState ''H'') =
         (circles chordState)[i := p\<lparr>rendered := False, played := True, bid := heapTop chordState + i\<rparr>]"
      "\<forall>c \<in> set (eligibleCircles64 (reducer64 chordState ''H'') ''H''). nid (note' c) \<noteq> nid (note' p)"
    by blast
  then have "\<exists>i < length (circles chordState). \<exists>p.
         circles chordState ! i = p
       \<and> circles (reducer64 chordState ''H'') =
           (circles chordState)[i := p\<lparr>rendered := False, played := True, bid := 14 + i\<rparr>]
       \<and> list_all (\<lambda>c. nid (note' c) \<noteq> nid (note' p)) (eligibleCircles64 (reducer64 chordState ''H'') ''H'')"
    unfolding top list_all_iff by blast
  with h1 h2 h3 h4 el show ?thesis by blast
qed

text \<open>
  The claim as it is worded fails in two ways. With the distance taken in decimal
  arithmetic, a note that starts at 1.38 is exactly 0.70 away from the time 0.68 and so no
  candidate; the program takes its token, since the difference of the two doubles is
  below the double 0.7. And with the distance taken on the exact values of the doubles, a
  note that starts at the double 0.7 is less than 0.7 away from the time 0; the program
  does not take its token.
\<close>

theorem lane_hit_counterexample:
  "(7 / 10 :: rat) \<le> \<bar>138 / 100 - 68 / 100\<bar>
   \<and> eligibleCircles64 (tokenAt (round64 (138 / 100)) (round64 (68 / 100))) ''H'' =
       circles (tokenAt (round64 (138 / 100)) (round64 (68 / 100)))
   \<and> map played (circles (reducer64 (tokenAt (round64 (138 / 100)) (round64 (68 / 100))) ''H'')) = [True]
   \<and> \<bar>val (round64 (7 / 10)) - val (Finite 0)\<bar> < 7 / 10
   \<and> eligibleCircles64 (tokenAt (round64 (7 / 10)) (Finite 0)) ''H'' = []
   \<and> map played (circles (reducer64 (tokenAt (round64 (7 / 10)) (Finite 0)) ''H'')) = [False]"
  by code_simp

text \<open>
  The example with three candidates, run: the key \<open>H\<close> takes the second token, the first
  of the two with the earliest start, for 10 points, and leaves the others as candidates.
\<close>

lemma chordState_example:
  "prioritizedCircle64 chordState ''H'' = Some (circles chordState ! 1)
   \<and> circles (reducer64 chordState ''H'') =
       (circles chordState)[1 := (circles chordState ! 1)\<lparr>rendered := False, played := True, bid := 15\<rparr>]
   \<and> score (reducer64 chordState ''H'') = Finite 10
   \<and> eligibleCircles64 (reducer64 chordState ''H'') ''H'' = [circles chordState ! 0, circles chordState ! 2]"
  by code_simp

lemma score_exact:
  assumes "n + 10 \<le> 2 ^ 53"
  shows "fadd (Finite (of_nat n)) (Finite 0) = Finite (of_nat n)
       \<and> fadd (Finite (of_nat n)) (Finite 5) = Finite (of_nat (n + 5))
       \<and> fadd (Finite (of_nat n)) (Finite 10) = Finite (of_nat (n + 10))"
  using assms round64_nat [of n] round64_nat [of "n + 5"] round64_nat [of "n + 10"]
  by simp

text \<open>
  Claim C2. In an unpaused state a lane key with no chosen token adds 0 to the score. A
  chosen token is a candidate, so its note starts less than 0.7 away from the current
  time; the key adds 10 to the score when that distance, the difference of the two doubles
  rounded to a double, is less than the double nearest to 0.30, and 5 otherwise. The
  additions are exact on a score that is a natural number of at most \<open>2\<^sup>5\<^sup>3 - 10\<close>, as every
  score reached from 0 is.
\<close>

theorem hit_score:
  assumes np: "\<not> paused s" and lk: "laneKey action"
  shows "(case prioritizedCircle64 s action of
            None \<Rightarrow> eligibleCircles64 s action = []
                     \<and> score (reducer64 s action) = fadd (score s) (Finite 0)
          | Some p \<Rightarrow>
              p \<in> set (eligibleCircles64 s action)
              \<and> flt (Math_abs (fsub (start (note' p)) (time s))) (round64 (7 / 10))
              \<and> (flt (Math_abs (fsub (start (note' p)) (time s))) (round64 (3 / 10)) \<longrightarrow>
                   score (reducer64 s action) = fadd (score s) (Finite 10))
              \<and> (\<not> flt (Math_abs (fsub (start (note' p)) (time s))) (round64 (3 / 10)) \<longrightarrow>
                   score (reducer64 s action) = fadd (score s) (Finite 5)))
       \<and> (\<forall>n. n + 10 \<le> 2 ^ 53 \<longrightarrow>
              fadd (Finite (of_nat n)) (Finite 0) = Finite (of_nat n)
            \<and> fadd (Finite (of_nat n)) (Finite 5) = Finite (of_nat (n + 5))
            \<and> fadd (Finite (of_nat n)) (Finite 10) = Finite (of_nat (n + 10)))"
proof -
  have 1: "(case prioritizedCircle64 s action of
            None \<Rightarrow> eligibleCircles64 s action = []
                     \<and> score (reducer64 s action) = fadd (score s) (Finite 0)
          | Some p \<Rightarrow>
              p \<in> set (eligibleCircles64 s action)
              \<and> flt (Math_abs (fsub (start (note' p)) (time s))) (round64 (7 / 10))
              \<and> (flt (Math_abs (fsub (start (note' p)) (time s))) (round64 (3 / 10)) \<longrightarrow>
                   score (reducer64 s action) = fadd (score s) (Finite 10))
              \<and> (\<not> flt (Math_abs (fsub (start (note' p)) (time s))) (round64 (3 / 10)) \<longrightarrow>
                   score (reducer64 s action) = fadd (score s) (Finite 5)))"
  proof (cases "prioritizedCircle64 s action")
    case None
    have "eligibleCircles64 s action = []" using None by (simp add: prioritizedCircle64_None)
    moreover have "score (reducer64 s action) = fadd (score s) (Finite 0)"
      by (simp add: reducer64_lane [OF np lk] addedPoints64_def None)
    ultimately show ?thesis by (simp add: None)
  next
    case (Some p)
    have el: "p \<in> set (eligibleCircles64 s action)"
      by (rule prioritizedCircle64_eligible [OF Some])
    then have "flt (Math_abs (fsub (start (note' p)) (time s))) (round64 (7 / 10))"
      by (simp add: eligibleCircles64_iff)
    moreover have "score (reducer64 s action) =
        fadd (score s) (if flt (Math_abs (fsub (start (note' p)) (time s))) (round64 (3 / 10))
                        then Finite 10 else Finite 5)"
      by (simp add: reducer64_lane [OF np lk] addedPoints64_def Some Time_FORGIVING_MARGIN64_def)
    ultimately show ?thesis using el by (simp add: Some)
  qed
  from 1 score_exact show ?thesis by blast
qed

theorem hit_score_witness:
  "\<not> paused (tokenAt (Finite 2) (Finite 2)) \<and> laneKey ''H''
   \<and> prioritizedCircle64 (tokenAt (Finite 2) (Finite 2)) ''H'' = Some scenarioBody64
   \<and> score (reducer64 (tokenAt (Finite 2) (Finite 2)) ''H'') = Finite 10
   \<and> \<not> paused (tokenAt (Finite 2) (Finite (5 / 2)))
   \<and> prioritizedCircle64 (tokenAt (Finite 2) (Finite (5 / 2))) ''H'' = Some scenarioBody64
   \<and> score (reducer64 (tokenAt (Finite 2) (Finite (5 / 2))) ''H'') = Finite 5
   \<and> prioritizedCircle64 (tokenAt (Finite 2) (Finite 2)) ''L'' = None
   \<and> score (reducer64 (tokenAt (Finite 2) (Finite 2)) ''L'') = Finite 0"
proof -
  let ?hit = "tokenAt (Finite 2) (Finite 2)"
  let ?late = "tokenAt (Finite 2) (Finite (5 / 2))"
  have h1: "\<not> paused ?hit" and h1': "\<not> paused ?late"
    by (simp_all add: tokenAt_def scenario64_defs)
  have h2: "laneKey ''H''" and h2': "laneKey ''L''" by (simp_all add: laneKey_def)
  have p: "prioritizedCircle64 ?hit ''H'' = Some scenarioBody64" by code_simp
  have p': "prioritizedCircle64 ?late ''H'' = Some scenarioBody64" by code_simp
  have n: "prioritizedCircle64 ?hit ''L'' = None" by code_simp
  have s0: "score ?hit = Finite 0" "score ?late = Finite 0"
    by (simp_all add: tokenAt_def scenario64_defs)
  have near: "flt (Math_abs (fsub (start (note' scenarioBody64)) (time ?hit))) (round64 (3 / 10))"
    by code_simp
  have far: "\<not> flt (Math_abs (fsub (start (note' scenarioBody64)) (time ?late))) (round64 (3 / 10))"
    by code_simp
  have r: "round64 10 = Finite 10" "round64 5 = Finite 5"
    using round64_nat [of 10] round64_nat [of 5] by simp_all
  from hit_score [OF h1 h2] p near
  have 10: "score (reducer64 ?hit ''H'') = Finite 10"
    unfolding s0 by (simp add: r)
  from hit_score [OF h1' h2] p' far
  have 5: "score (reducer64 ?late ''H'') = Finite 5"
    unfolding s0 by (simp add: r)
  from hit_score [OF h1 h2'] n
  have 0: "score (reducer64 ?hit ''L'') = Finite 0"
    unfolding s0 by (simp add: round64_def)
  from h1 h1' h2 p p' n 10 5 0 show ?thesis by simp
qed

text \<open>
  The claim as it is worded fails in two ways. In decimal arithmetic a note that starts at
  2.30 is exactly 0.30 away from the time 2.00, which is worth 5; the program adds 10,
  since the difference of the two doubles is below the double 0.30. And with the distance
  taken on the exact values of the doubles, a note that starts at the double 0.30 is less
  than 0.30 away from the time 0, which is worth 10; the program adds 5. A note that starts
  at 1.38 is 0.70 away from the time 0.68 in decimal arithmetic, so no token is selected;
  the program adds 5.
\<close>

theorem hit_score_counterexample:
  "(3 / 10 :: rat) \<le> \<bar>23 / 10 - 2\<bar>
   \<and> score (tokenAt (round64 (23 / 10)) (Finite 2)) = Finite 0
   \<and> score (reducer64 (tokenAt (round64 (23 / 10)) (Finite 2)) ''H'') = Finite 10
   \<and> \<bar>val (round64 (3 / 10)) - val (Finite 0)\<bar> < 3 / 10
   \<and> score (tokenAt (round64 (3 / 10)) (Finite 0)) = Finite 0
   \<and> score (reducer64 (tokenAt (round64 (3 / 10)) (Finite 0)) ''H'') = Finite 5
   \<and> (7 / 10 :: rat) \<le> \<bar>138 / 100 - 68 / 100\<bar>
   \<and> score (tokenAt (round64 (138 / 100)) (round64 (68 / 100))) = Finite 0
   \<and> score (reducer64 (tokenAt (round64 (138 / 100)) (round64 (68 / 100))) ''H'') = Finite 5"
  by code_simp

subsection \<open>The random number generator\<close>











end
